theory Spec2Isabelle
  imports Main "HOL-Library.Multiset" "HOL-Library.Sublist"
begin

unbundle bit_operations_syntax

section \<open>Errors raised by the program\<close>

text \<open>
  Every exception the three engines of \<^verbatim>\<open>main.py\<close> can raise, either by an explicit
  \<^verbatim>\<open>raise ValueError(...)\<close> or through a built-in operation, is a value of this type.
\<close>

datatype error =
    FNVBitsNoSoportados \<comment> \<open>\<^verbatim>\<open>ValueError("FNV-1 solo soporta 32 o 64 bits")\<close>\<close>
  | UnicodeEncodeError \<comment> \<open>\<^verbatim>\<open>str.encode('utf-8')\<close> on a lone surrogate\<close>
  | IndexError \<comment> \<open>\<^verbatim>\<open>heap.pop()\<close> on an empty list\<close>
  | AttributeError \<comment> \<open>\<^verbatim>\<open>None.simbolo\<close>\<close>
  | KeyError \<comment> \<open>\<^verbatim>\<open>self.codigos[caracter]\<close> with no entry\<close>
  | LiteralInvalido \<comment> \<open>\<^verbatim>\<open>int(s, base)\<close> on a string that is no literal of that base\<close>
  | NoExisteInverso \<comment> \<open>\<^verbatim>\<open>ValueError("No existe inverso modular")\<close>\<close>
  | ZeroDivisionError \<comment> \<open>\<^verbatim>\<open>x % 0\<close>\<close>
  | ClavePrivadaNoGenerada \<comment> \<open>\<^verbatim>\<open>ValueError("Clave privada no generada")\<close>\<close>
  | ClavePublicaNoDisponible \<comment> \<open>\<^verbatim>\<open>ValueError("Clave publica no disponible")\<close>\<close>
  | PowModuloCero \<comment> \<open>\<^verbatim>\<open>pow(b, e, 0)\<close>\<close>
  | PowBaseNoInvertible \<comment> \<open>\<^verbatim>\<open>pow(b, e, m)\<close>, \<^verbatim>\<open>e < 0\<close>, \<^verbatim>\<open>b\<close> not invertible\<close>

section \<open>FNV1Hash\<close>

text \<open>
  The instance holds three integers fixed by the constructor. Python integers are
  unbounded, so they are \<^typ>\<open>int\<close>; the truncation to the width is the
  \<^verbatim>\<open>& self.mask\<close> of the source.
\<close>

record FNV1Hash =
  FNV_prime :: int
  FNV_offset_basis :: int
  mask_fnv :: int

definition FNV1Hash_init :: "int \<Rightarrow> error + FNV1Hash" where
  "FNV1Hash_init bits =
     (if bits = 32 then
        Inr \<lparr>FNV_prime = 16777619, FNV_offset_basis = 2166136261, mask_fnv = 0xFFFFFFFF\<rparr>
      else if bits = 64 then
        Inr \<lparr>FNV_prime = 1099511628211, FNV_offset_basis = 14695981039346656037,
             mask_fnv = 0xFFFFFFFFFFFFFFFF\<rparr>
      else Inl FNVBitsNoSoportados)"

text \<open>
  The argument of \<^verbatim>\<open>hash\<close> is a \<^verbatim>\<open>str\<close> (a sequence of code points) or a
  \<^verbatim>\<open>bytes\<close> object (a sequence of integers below 256).
\<close>

datatype datos = Str "nat list" | Bytes "nat list"

text \<open>
  \<^verbatim>\<open>str.encode('utf-8')\<close>: one to four bytes per code point; the surrogates
  \<^verbatim>\<open>U+D800..U+DFFF\<close> have no encoding and raise.
\<close>

definition utf8_codepoint :: "nat \<Rightarrow> nat list option" where
  "utf8_codepoint c =
     (if c < 0x80 then Some [c]
      else if c < 0x800 then Some [0xC0 + c div 64, 0x80 + c mod 64]
      else if 0xD800 \<le> c \<and> c \<le> 0xDFFF then None
      else if c < 0x10000 then
        Some [0xE0 + c div 4096, 0x80 + (c div 64) mod 64, 0x80 + c mod 64]
      else if c < 0x110000 then
        Some [0xF0 + c div 262144, 0x80 + (c div 4096) mod 64, 0x80 + (c div 64) mod 64,
              0x80 + c mod 64]
      else None)"

fun encode_utf8 :: "nat list \<Rightarrow> nat list option" where
  "encode_utf8 [] = Some []"
| "encode_utf8 (c # cs) =
     (case utf8_codepoint c of
        None \<Rightarrow> None
      | Some bs \<Rightarrow> (case encode_utf8 cs of None \<Rightarrow> None | Some rest \<Rightarrow> Some (bs @ rest)))"

text \<open>The body of the \<^verbatim>\<open>for byte in data\<close> loop, and the loop.\<close>

fun hash_bucle :: "FNV1Hash \<Rightarrow> int \<Rightarrow> nat list \<Rightarrow> int" where
  "hash_bucle F hash_value [] = hash_value"
| "hash_bucle F hash_value (byte # data) =
     hash_bucle F (((hash_value * FNV_prime F) AND mask_fnv F) XOR int byte) data"

definition hash :: "FNV1Hash \<Rightarrow> datos \<Rightarrow> error + int" where
  "hash F data =
     (case data of
        Str s \<Rightarrow>
          (case encode_utf8 s of
             None \<Rightarrow> Inl UnicodeEncodeError
           | Some bs \<Rightarrow> Inr (hash_bucle F (FNV_offset_basis F) bs))
      | Bytes bs \<Rightarrow> Inr (hash_bucle F (FNV_offset_basis F) bs))"

text \<open>\<^verbatim>\<open>format(v, 'x')\<close>: lowercase hexadecimal digits, no prefix, a sign for negatives.\<close>

definition digito_hex :: "nat \<Rightarrow> char" where
  "digito_hex d = ''0123456789abcdef'' ! d"

function hex_nat :: "nat \<Rightarrow> string" where
  "hex_nat n = (if n < 16 then [digito_hex n] else hex_nat (n div 16) @ [digito_hex (n mod 16)])"
  by pat_completeness auto
termination
  by (relation "measure id") auto

declare hex_nat.simps [simp del]

definition format_x :: "int \<Rightarrow> string" where
  "format_x v = (if v < 0 then CHR ''-'' # hex_nat (nat (- v)) else hex_nat (nat v))"

definition hash_hex :: "FNV1Hash \<Rightarrow> datos \<Rightarrow> error + string" where
  "hash_hex F data = (case hash F data of Inl err \<Rightarrow> Inl err | Inr v \<Rightarrow> Inr (format_x v))"

text \<open>
  The reference definition of FNV-1 in the words of the specification: start at the offset
  basis; for each byte, multiply by the prime modulo \<open>2 ^ bits\<close>, then xor with the byte.
\<close>

definition fnv1_referencia :: "nat \<Rightarrow> int \<Rightarrow> int \<Rightarrow> nat list \<Rightarrow> int" where
  "fnv1_referencia bits prime offset_basis data =
     foldl (\<lambda>h b. ((h * prime) mod 2 ^ bits) XOR int b) offset_basis data"

section \<open>HuffmanCompressor\<close>

subsection \<open>Nodes\<close>

text \<open>
  \<^verbatim>\<open>NodoHuffman\<close> has four fields; the constructor sets both children to \<^verbatim>\<open>None\<close>.
  Frequencies are counts of characters and sums of counts, so they are natural numbers.
  \<^verbatim>\<open>__lt__\<close> compares frequencies only.
\<close>

datatype 'a NodoHuffman =
  NodoHuffman (simbolo: "'a option") (frecuencia: nat)
    (izquierda: "'a NodoHuffman option") (derecha: "'a NodoHuffman option")

definition nodo_init :: "'a option \<Rightarrow> nat \<Rightarrow> 'a NodoHuffman" where
  "nodo_init s f = NodoHuffman s f None None"

definition nodo_lt :: "'a NodoHuffman \<Rightarrow> 'a NodoHuffman \<Rightarrow> bool" where
  "nodo_lt self otro \<longleftrightarrow> frecuencia self < frecuencia otro"

subsection \<open>Dictionaries\<close>

text \<open>
  A Python \<^verbatim>\<open>dict\<close> keeps its keys in insertion order, and the order is observable
  (\<^verbatim>\<open>Counter(texto).items()\<close> fixes the order of the heap pushes, and the dictionary
  comprehension of \<^verbatim>\<open>descomprimir\<close> lets the last of two equal codes win). A dictionary
  is therefore an association list with distinct keys in insertion order: assignment to
  a present key replaces the value in place, assignment to an absent key appends.
\<close>

type_synonym ('k, 'v) dict = "('k \<times> 'v) list"

fun dict_set :: "('k, 'v) dict \<Rightarrow> 'k \<Rightarrow> 'v \<Rightarrow> ('k, 'v) dict" where
  "dict_set [] k v = [(k, v)]"
| "dict_set ((k', v') # d) k v = (if k' = k then (k, v) # d else (k', v') # dict_set d k v)"

definition dict_get :: "('k, 'v) dict \<Rightarrow> 'k \<Rightarrow> 'v option" where
  "dict_get d k = map_of d k"

text \<open>\<^verbatim>\<open>Counter(texto)\<close>: one entry per distinct character, in order of first occurrence.\<close>

definition Counter :: "'a list \<Rightarrow> ('a, nat) dict" where
  "Counter texto =
     foldl (\<lambda>d c. dict_set d c (case dict_get d c of None \<Rightarrow> 1 | Some n \<Rightarrow> n + 1)) [] texto"

subsection \<open>The heap of the standard library\<close>

text \<open>
  \<^verbatim>\<open>heapq\<close> keeps a binary heap in a Python list. The functions below follow
  \<^verbatim>\<open>Lib/heapq.py\<close> of CPython statement by statement: \<^verbatim>\<open>_siftdown\<close> moves the new
  item towards the root while it is smaller than its parent, \<^verbatim>\<open>_siftup\<close> moves the
  smaller child up until a leaf is reached and then sifts the item down from there.
  The indices read are within the list at every call made by \<^verbatim>\<open>heappush\<close> and
  \<^verbatim>\<open>heappop\<close>.
\<close>

function siftdown_bucle ::
  "'a NodoHuffman list \<Rightarrow> nat \<Rightarrow> nat \<Rightarrow> 'a NodoHuffman \<Rightarrow> 'a NodoHuffman list" where
  "siftdown_bucle heap startpos pos newitem =
     (if pos > startpos then
        (let parentpos = (pos - 1) div 2;
             parent = heap ! parentpos
         in if nodo_lt newitem parent
            then siftdown_bucle (heap[pos := parent]) startpos parentpos newitem
            else heap[pos := newitem])
      else heap[pos := newitem])"
  by pat_completeness auto
termination
  by (relation "measure (\<lambda>(heap, startpos, pos, newitem). pos)") auto

declare siftdown_bucle.simps [simp del]

definition siftdown :: "'a NodoHuffman list \<Rightarrow> nat \<Rightarrow> nat \<Rightarrow> 'a NodoHuffman list" where
  "siftdown heap startpos pos = siftdown_bucle heap startpos pos (heap ! pos)"

function siftup_bucle ::
  "'a NodoHuffman list \<Rightarrow> nat \<Rightarrow> nat \<Rightarrow> 'a NodoHuffman list \<times> nat" where
  "siftup_bucle heap endpos pos =
     (let childpos = 2 * pos + 1
      in if childpos < endpos then
           (let rightpos = childpos + 1;
                childpos' = (if rightpos < endpos \<and> \<not> nodo_lt (heap ! childpos) (heap ! rightpos)
                             then rightpos else childpos)
            in siftup_bucle (heap[pos := heap ! childpos']) endpos childpos')
         else (heap, pos))"
  by pat_completeness auto
termination
  by (relation "measure (\<lambda>(heap, endpos, pos). endpos - pos)") (auto simp: Let_def)

declare siftup_bucle.simps [simp del]

definition siftup :: "'a NodoHuffman list \<Rightarrow> nat \<Rightarrow> 'a NodoHuffman list" where
  "siftup heap pos =
     (let endpos = length heap;
          startpos = pos;
          newitem = heap ! pos;
          (heap', pos') = siftup_bucle heap endpos pos
      in siftdown (heap'[pos' := newitem]) startpos pos')"

definition heappush :: "'a NodoHuffman list \<Rightarrow> 'a NodoHuffman \<Rightarrow> 'a NodoHuffman list" where
  "heappush heap item = siftdown (heap @ [item]) 0 (length heap)"

definition heappop ::
  "'a NodoHuffman list \<Rightarrow> error + ('a NodoHuffman \<times> 'a NodoHuffman list)" where
  "heappop heap =
     (if heap = [] then Inl IndexError
      else
        (let lastelt = last heap;
             heap' = butlast heap
         in if heap' \<noteq> [] then
              (let returnitem = heap' ! 0
               in Inr (returnitem, siftup (heap'[0 := lastelt]) 0))
            else Inr (lastelt, heap')))"

text \<open>The heap operations keep the length of the list; the loop of \<^verbatim>\<open>construir_arbol\<close>
  terminates because each round pops two nodes and pushes one.\<close>

lemma length_siftdown_bucle [simp]:
  "length (siftdown_bucle heap startpos pos newitem) = length heap"
  by (induction heap startpos pos newitem rule: siftdown_bucle.induct)
     (subst siftdown_bucle.simps, simp add: Let_def)

lemma length_siftdown [simp]: "length (siftdown heap startpos pos) = length heap"
  by (simp add: siftdown_def)

lemma length_siftup_bucle [simp]:
  "length (fst (siftup_bucle heap endpos pos)) = length heap"
  by (induction heap endpos pos rule: siftup_bucle.induct)
     (subst siftup_bucle.simps, simp add: Let_def)

lemma length_siftup [simp]: "length (siftup heap pos) = length heap"
  by (simp add: siftup_def Let_def split: prod.splits) (metis fst_conv length_siftup_bucle)

lemma length_heappush [simp]: "length (heappush heap item) = Suc (length heap)"
  by (simp add: heappush_def)

lemma length_heappop:
  "heappop heap = Inr (item, heap') \<Longrightarrow> length heap = Suc (length heap')"
  by (cases heap rule: rev_cases) (auto simp: heappop_def Let_def split: if_splits)

subsection \<open>construir_arbol\<close>

text \<open>
  The \<^verbatim>\<open>while len(heap) > 1\<close> loop. The parent is created with no symbol and the sum
  of the two frequencies; the first node popped becomes \<^verbatim>\<open>izquierda\<close>, the second
  \<^verbatim>\<open>derecha\<close>.
\<close>

function construir_bucle :: "'a NodoHuffman list \<Rightarrow> error + 'a NodoHuffman list" where
  "construir_bucle heap =
     (if length heap > 1 then
        (case heappop heap of
           Inl err \<Rightarrow> Inl err
         | Inr (nodo1, heap1) \<Rightarrow>
             (case heappop heap1 of
                Inl err \<Rightarrow> Inl err
              | Inr (nodo2, heap2) \<Rightarrow>
                  (let nodo_padre =
                         NodoHuffman None (frecuencia nodo1 + frecuencia nodo2)
                           (Some nodo1) (Some nodo2)
                   in construir_bucle (heappush heap2 nodo_padre))))
      else Inr heap)"
  by pat_completeness auto
termination
  by (relation "measure length") (auto dest!: length_heappop)

declare construir_bucle.simps [simp del]

text \<open>
  The value returned is the one stored in \<^verbatim>\<open>self.arbol_raiz\<close>; for the empty text the
  function returns \<^verbatim>\<open>None\<close> before anything else.
\<close>

definition construir_arbol :: "'a list \<Rightarrow> error + 'a NodoHuffman option" where
  "construir_arbol texto =
     (if texto = [] then Inr None
      else
        (let frecuencias = Counter texto;
             heap = foldl (\<lambda>heap (simbolo, freq). heappush heap (nodo_init (Some simbolo) freq))
                      [] frecuencias
         in case construir_bucle heap of
              Inl err \<Rightarrow> Inl err
            | Inr heap' \<Rightarrow> Inr (if heap' \<noteq> [] then Some (heap' ! 0) else None)))"

subsection \<open>generar_codigos\<close>

text \<open>
  The recursion threads the dictionary \<^verbatim>\<open>self.codigos\<close>. A node with a symbol stores
  the code accumulated so far, whatever it is; a node without one descends into the
  children that are present, appending \<^verbatim>\<open>"0"\<close> on the left and \<^verbatim>\<open>"1"\<close> on the right.
\<close>

fun generar_codigos_rec ::
  "'a NodoHuffman \<Rightarrow> string \<Rightarrow> ('a, string) dict \<Rightarrow> ('a, string) dict" where
  "generar_codigos_rec (NodoHuffman s f izq der) codigo_actual codigos =
     (case s of
        Some sim \<Rightarrow> dict_set codigos sim codigo_actual
      | None \<Rightarrow>
          (let codigos1 =
                 (case izq of
                    Some nodo \<Rightarrow> generar_codigos_rec nodo (codigo_actual @ ''0'') codigos
                  | None \<Rightarrow> codigos)
           in case der of
                Some nodo \<Rightarrow> generar_codigos_rec nodo (codigo_actual @ ''1'') codigos1
              | None \<Rightarrow> codigos1))"

text \<open>
  The call without arguments starts at \<^verbatim>\<open>self.arbol_raiz\<close> with an empty dictionary
  and the empty code; with no tree, \<^verbatim>\<open>nodo.simbolo\<close> raises.
\<close>

definition generar_codigos :: "'a NodoHuffman option \<Rightarrow> error + ('a, string) dict" where
  "generar_codigos arbol_raiz =
     (case arbol_raiz of
        None \<Rightarrow> Inl AttributeError
      | Some nodo \<Rightarrow> Inr (generar_codigos_rec nodo [] []))"

subsection \<open>comprimir\<close>

text \<open>The loop \<^verbatim>\<open>for caracter in texto: bits += self.codigos[caracter]\<close>.\<close>

fun codificar :: "('a, string) dict \<Rightarrow> string \<Rightarrow> 'a list \<Rightarrow> error + string" where
  "codificar codigos bits [] = Inr bits"
| "codificar codigos bits (caracter # texto) =
     (case dict_get codigos caracter of
        None \<Rightarrow> Inl KeyError
      | Some codigo \<Rightarrow> codificar codigos (bits @ codigo) texto)"

text \<open>
  \<^verbatim>\<open>int(byte, 2)\<close> on a string of binary digits, most significant digit first. The
  other literals Python accepts (a sign, blanks, a \<^verbatim>\<open>0b\<close> prefix, underscores) contain a
  character that is neither \<^verbatim>\<open>0\<close> nor \<^verbatim>\<open>1\<close>; the strings built by \<^verbatim>\<open>comprimir\<close>
  never do, so they are not modelled and count as invalid here.
\<close>

fun valor_base2 :: "nat \<Rightarrow> string \<Rightarrow> nat option" where
  "valor_base2 acc [] = Some acc"
| "valor_base2 acc (c # cs) =
     (if c = CHR ''0'' then valor_base2 (2 * acc) cs
      else if c = CHR ''1'' then valor_base2 (2 * acc + 1) cs
      else None)"

definition int_base2 :: "string \<Rightarrow> nat option" where
  "int_base2 s = (if s = [] then None else valor_base2 0 s)"

text \<open>
  The loop \<^verbatim>\<open>for i in range(0, len(bits), 8)\<close>: each round packs the slice
  \<^verbatim>\<open>bits[i:i + 8]\<close>. A slice has at most eight digits, so its value is below 256 and
  \<^verbatim>\<open>bytearray.append\<close> accepts it.
\<close>

function empaquetar :: "string \<Rightarrow> error + nat list" where
  "empaquetar bits =
     (if bits = [] then Inr []
      else
        (case int_base2 (take 8 bits) of
           None \<Rightarrow> Inl LiteralInvalido
         | Some byte \<Rightarrow>
             (case empaquetar (drop 8 bits) of
                Inl err \<Rightarrow> Inl err
              | Inr bytes_comprimidos \<Rightarrow> Inr (byte # bytes_comprimidos))))"
  by pat_completeness auto
termination
  by (relation "measure length") auto

declare empaquetar.simps [simp del]

text \<open>
  \<^verbatim>\<open>comprimir\<close> returns the bytes (the padding count first) and a copy of the code
  table. The empty text returns \<^verbatim>\<open>(b"", {})\<close>.
\<close>

definition comprimir :: "'a list \<Rightarrow> error + (nat list \<times> ('a, string) dict)" where
  "comprimir texto =
     (if texto = [] then Inr ([], [])
      else
        (case construir_arbol texto of
           Inl err \<Rightarrow> Inl err
         | Inr arbol_raiz \<Rightarrow>
             (case generar_codigos arbol_raiz of
                Inl err \<Rightarrow> Inl err
              | Inr codigos \<Rightarrow>
                  (case codificar codigos [] texto of
                     Inl err \<Rightarrow> Inl err
                   | Inr bits \<Rightarrow>
                       (let padding = 8 - length bits mod 8;
                            padding = (if padding = 8 then 0 else padding);
                            bits = bits @ replicate padding (CHR ''0'')
                        in case empaquetar bits of
                             Inl err \<Rightarrow> Inl err
                           | Inr bytes_comprimidos \<Rightarrow>
                               Inr (padding # bytes_comprimidos, codigos))))))"

subsection \<open>descomprimir\<close>

text \<open>\<^verbatim>\<open>format(byte, '08b')\<close>: binary digits, padded with zeros on the left to width 8.\<close>

function bin_nat :: "nat \<Rightarrow> string" where
  "bin_nat n =
     (if n < 2 then [if n = 0 then CHR ''0'' else CHR ''1'']
      else bin_nat (n div 2) @ [if n mod 2 = 0 then CHR ''0'' else CHR ''1''])"
  by pat_completeness auto
termination
  by (relation "measure id") auto

declare bin_nat.simps [simp del]

definition format_08b :: "nat \<Rightarrow> string" where
  "format_08b byte = replicate (8 - length (bin_nat byte)) (CHR ''0'') @ bin_nat byte"

text \<open>
  The loop \<^verbatim>\<open>for bit in bits\<close>: the accumulated code is looked up in the inverse table
  after every bit; a match emits the symbol and clears the accumulator. What is left in
  the accumulator at the end is dropped.
\<close>

fun decodificar :: "(string, 'a) dict \<Rightarrow> string \<Rightarrow> string \<Rightarrow> 'a list \<Rightarrow> 'a list" where
  "decodificar codigos_inversos [] codigo_actual texto_reconstruido = texto_reconstruido"
| "decodificar codigos_inversos (b # bits) codigo_actual texto_reconstruido =
     (let codigo_actual = codigo_actual @ [b]
      in case dict_get codigos_inversos codigo_actual of
           Some sim \<Rightarrow> decodificar codigos_inversos bits [] (texto_reconstruido @ [sim])
         | None \<Rightarrow> decodificar codigos_inversos bits codigo_actual texto_reconstruido)"

text \<open>
  \<^verbatim>\<open>bits[:-padding]\<close> keeps the first \<^verbatim>\<open>len(bits) - padding\<close> characters and nothing
  when \<^verbatim>\<open>padding\<close> is at least the length, which is what \<^const>\<open>take\<close> does with the
  truncated difference. The inverse dictionary is built entry by entry, in the order of
  the table.
\<close>

definition descomprimir :: "nat list \<Rightarrow> ('a, string) dict \<Rightarrow> 'a list" where
  "descomprimir datos_comprimidos codigos_huffman =
     (if datos_comprimidos = [] \<or> codigos_huffman = [] then []
      else
        (let padding = datos_comprimidos ! 0;
             datos_bits = drop 1 datos_comprimidos;
             bits = concat (map format_08b datos_bits);
             bits = (if padding > 0 then take (length bits - padding) bits else bits);
             codigos_inversos = foldl (\<lambda>d (k, v). dict_set d v k) [] codigos_huffman
         in decodificar codigos_inversos bits [] []))"

subsection \<open>Notions used to state the properties of the codec\<close>

text \<open>
  The symbols at the leaves of a tree, from left to right, and the code table read off a
  tree without a dictionary: the list of the pairs that \<^verbatim>\<open>generar_codigos\<close> stores, in
  the order of its traversal.
\<close>

fun hojas :: "'a NodoHuffman \<Rightarrow> 'a list" where
  "hojas (NodoHuffman s f izq der) =
     (case s of
        Some sim \<Rightarrow> [sim]
      | None \<Rightarrow>
          (case izq of Some nodo \<Rightarrow> hojas nodo | None \<Rightarrow> [])
          @ (case der of Some nodo \<Rightarrow> hojas nodo | None \<Rightarrow> []))"

fun codigos_arbol :: "'a NodoHuffman \<Rightarrow> string \<Rightarrow> ('a, string) dict" where
  "codigos_arbol (NodoHuffman s f izq der) codigo_actual =
     (case s of
        Some sim \<Rightarrow> [(sim, codigo_actual)]
      | None \<Rightarrow>
          (case izq of Some nodo \<Rightarrow> codigos_arbol nodo (codigo_actual @ ''0'') | None \<Rightarrow> [])
          @ (case der of Some nodo \<Rightarrow> codigos_arbol nodo (codigo_actual @ ''1'') | None \<Rightarrow> []))"

text \<open>
  A table is prefix-free when, for any two entries with different symbols, neither code
  is a prefix of the other (the quantification covers both orders).
\<close>

definition libre_de_prefijos :: "('a, string) dict \<Rightarrow> bool" where
  "libre_de_prefijos codigos \<longleftrightarrow>
     (\<forall>(s1, c1) \<in> set codigos. \<forall>(s2, c2) \<in> set codigos. s1 \<noteq> s2 \<longrightarrow> \<not> prefix c1 c2)"

text \<open>The symbols held by all the trees of a heap, with multiplicity.\<close>

definition hojas_heap :: "'a NodoHuffman list \<Rightarrow> 'a multiset" where
  "hojas_heap heap = (\<Sum>t \<in># mset heap. mset (hojas t))"

text \<open>
  Strings of binary digits, and the eight bits of a byte with the most significant bit
  first: the digit at position \<open>i\<close> is the bit of weight \<open>2 ^ (7 - i)\<close>. The function
  \<open>digitos\<close> gives the \<open>k\<close> low bits of a number in the same order.
\<close>

definition es_binaria :: "string \<Rightarrow> bool" where
  "es_binaria s \<longleftrightarrow> set s \<subseteq> {CHR ''0'', CHR ''1''}"

definition byte_a_bits :: "nat \<Rightarrow> string" where
  "byte_a_bits b = map (\<lambda>i. if (b div 2 ^ (7 - i)) mod 2 = 1 then CHR ''1'' else CHR ''0'') [0..<8]"

fun digitos :: "nat \<Rightarrow> nat \<Rightarrow> string" where
  "digitos 0 n = []"
| "digitos (Suc k) n = digitos k (n div 2) @ [if n mod 2 = 0 then CHR ''0'' else CHR ''1'']"

section \<open>RSA\<close>

text \<open>
  The instance holds the two keys and the modulus, all \<^verbatim>\<open>None\<close> after construction.
  A key is a pair of integers, and a pair is never falsy, so \<^verbatim>\<open>not self.clave_privada\<close>
  holds exactly when the field is \<^verbatim>\<open>None\<close>. The field \<^verbatim>\<open>n\<close> of the source is
  \<open>modulo_n\<close> here.
\<close>

record RSA =
  clave_publica :: "(int \<times> int) option"
  clave_privada :: "(int \<times> int) option"
  modulo_n :: "int option"

definition RSA_init :: RSA where
  "RSA_init = \<lparr>clave_publica = None, clave_privada = None, modulo_n = None\<rparr>"

text \<open>
  \<^verbatim>\<open>calcular_mcd\<close>: the loop \<^verbatim>\<open>while b != 0: a, b = b, a % b\<close>. Python's \<^verbatim>\<open>%\<close> takes
  the sign of the divisor, as \<open>mod\<close> on \<^typ>\<open>int\<close> does, so \<open>\<bar>b\<bar>\<close> decreases.
\<close>

function calcular_mcd :: "int \<Rightarrow> int \<Rightarrow> int" where
  "calcular_mcd a b = (if b \<noteq> 0 then calcular_mcd b (a mod b) else a)"
  by pat_completeness auto
termination
  by (relation "measure (\<lambda>(a, b). nat \<bar>b\<bar>)") (auto simp: abs_mod_less)

declare calcular_mcd.simps [simp del]

definition son_coprimos :: "int \<Rightarrow> int \<Rightarrow> bool" where
  "son_coprimos a b \<longleftrightarrow> calcular_mcd a b = 1"

definition funcion_totiente_euler :: "int \<Rightarrow> int \<Rightarrow> int" where
  "funcion_totiente_euler p q = (p - 1) * (q - 1)"

text \<open>
  The inner function of \<^verbatim>\<open>modular_inverse\<close>. \<^verbatim>\<open>b // a\<close> is floor division, as
  \<open>div\<close> on \<^typ>\<open>int\<close>.
\<close>

function extended_gcd :: "int \<Rightarrow> int \<Rightarrow> int \<times> int \<times> int" where
  "extended_gcd a b =
     (if a = 0 then (b, 0, 1)
      else
        (let (gcd, x1, y1) = extended_gcd (b mod a) a;
             x = y1 - (b div a) * x1;
             y = x1
         in (gcd, x, y)))"
  by pat_completeness auto
termination
  by (relation "measure (\<lambda>(a, b). nat \<bar>a\<bar>)") (auto simp: abs_mod_less)

declare extended_gcd.simps [simp del]

definition modular_inverse :: "int \<Rightarrow> int \<Rightarrow> error + int" where
  "modular_inverse e phi =
     (let (gcd, x, y) = extended_gcd e phi
      in if gcd \<noteq> 1 then Inl NoExisteInverso
         else if phi = 0 then Inl ZeroDivisionError
         else Inr (x mod phi))"

text \<open>
  The search \<^verbatim>\<open>while not self.son_coprimos(e, phi_n): e += 2\<close> has no bound in the
  source; it is a partial function, and \<open>None\<close> means that it does not return.
\<close>

partial_function (option) buscar_e :: "int \<Rightarrow> int \<Rightarrow> int option" where
  "buscar_e e phi_n = (if \<not> son_coprimos e phi_n then buscar_e (e + 2) phi_n else Some e)"

declare buscar_e.simps [code]

text \<open>
  \<^verbatim>\<open>generar_claves\<close> stores \<^verbatim>\<open>self.n\<close> first, so the field is set even when
  \<^verbatim>\<open>modular_inverse\<close> raises. The result is the outcome together with the instance
  after the call; \<open>None\<close> stands for a call that does not return.
\<close>

definition generar_claves ::
  "RSA \<Rightarrow> int \<Rightarrow> int \<Rightarrow> ((error + ((int \<times> int) \<times> (int \<times> int))) \<times> RSA) option" where
  "generar_claves self p q =
     (let self1 = self\<lparr>modulo_n := Some (p * q)\<rparr>;
          phi_n = funcion_totiente_euler p q
      in case buscar_e 17 phi_n of
           None \<Rightarrow> None
         | Some e \<Rightarrow>
             (case modular_inverse e phi_n of
                Inl err \<Rightarrow> Some (Inl err, self1)
              | Inr d \<Rightarrow>
                  Some (Inr ((e, p * q), (d, p * q)),
                        self1\<lparr>clave_publica := Some (e, p * q),
                               clave_privada := Some (d, p * q)\<rparr>)))"

text \<open>
  The built-in \<^verbatim>\<open>pow(base, exp, mod)\<close> on integers: a zero modulus raises; a
  non-negative exponent gives the power reduced with \<^verbatim>\<open>%\<close>, computed by repeated
  squaring; a negative exponent replaces the base by its inverse modulo \<open>\<bar>mod\<bar>\<close> and
  raises when there is none.
\<close>

function pow_cuadrados :: "int \<Rightarrow> nat \<Rightarrow> int \<Rightarrow> int" where
  "pow_cuadrados base ex md =
     (if ex = 0 then 1 mod md
      else
        (let r = pow_cuadrados ((base * base) mod md) (ex div 2) md
         in if ex mod 2 = 1 then (base * r) mod md else r))"
  by pat_completeness auto
termination
  by (relation "measure (\<lambda>(base, ex, md). ex)") auto

declare pow_cuadrados.simps [simp del]

definition inverso_mod :: "int \<Rightarrow> int \<Rightarrow> int option" where
  "inverso_mod a m = find (\<lambda>x. (a * x) mod m = 1) (map int [0..<nat m])"

definition py_pow :: "int \<Rightarrow> int \<Rightarrow> int \<Rightarrow> error + int" where
  "py_pow base ex md =
     (if md = 0 then Inl PowModuloCero
      else if 0 \<le> ex then Inr (pow_cuadrados base (nat ex) md)
      else if \<bar>md\<bar> = 1 then Inr 0
      else
        (case inverso_mod base \<bar>md\<bar> of
           None \<Rightarrow> Inl PowBaseNoInvertible
         | Some inverso \<Rightarrow> Inr (pow_cuadrados inverso (nat (- ex)) md)))"

text \<open>
  The hash handed to \<^verbatim>\<open>firmar_hash\<close> and \<^verbatim>\<open>verificar_firma\<close> is a \<^verbatim>\<open>str\<close> of
  hexadecimal digits or an integer.
\<close>

datatype valor_hash = HashStr string | HashInt int

text \<open>
  \<^verbatim>\<open>int(s, 16)\<close> on a string of 8-bit characters: blanks around the literal are
  dropped, then come an optional sign, an optional \<^verbatim>\<open>0x\<close> prefix (which one underscore
  may follow) and hexadecimal digits of either case, where single underscores may stand
  between digits.
\<close>

definition es_espacio :: "char \<Rightarrow> bool" where
  "es_espacio c \<longleftrightarrow>
     (let k = (of_char c :: nat) in (9 \<le> k \<and> k \<le> 13) \<or> (28 \<le> k \<and> k \<le> 32))"

definition valor_digito16 :: "char \<Rightarrow> nat option" where
  "valor_digito16 c =
     (let k = (of_char c :: nat)
      in if 48 \<le> k \<and> k \<le> 57 then Some (k - 48)
         else if 97 \<le> k \<and> k \<le> 102 then Some (k - 87)
         else if 65 \<le> k \<and> k \<le> 70 then Some (k - 55)
         else None)"

fun digitos16 :: "nat \<Rightarrow> bool \<Rightarrow> string \<Rightarrow> nat option" where
  "digitos16 acc previo [] = (if previo then Some acc else None)"
| "digitos16 acc previo (c # cs) =
     (if c = CHR ''_'' then (if previo then digitos16 acc False cs else None)
      else
        (case valor_digito16 c of
           None \<Rightarrow> None
         | Some v \<Rightarrow> digitos16 (16 * acc + v) True cs))"

definition int_base16 :: "string \<Rightarrow> int option" where
  "int_base16 s =
     (let s1 = rev (dropWhile es_espacio (rev (dropWhile es_espacio s)));
          (negativo, s2) =
            (case s1 of
               [] \<Rightarrow> (False, s1)
             | c # r \<Rightarrow>
                 if c = CHR ''-'' then (True, r)
                 else if c = CHR ''+'' then (False, r)
                 else (False, s1));
          s3 =
            (case s2 of
               c0 # c1 # r \<Rightarrow>
                 if c0 = CHR ''0'' \<and> (c1 = CHR ''x'' \<or> c1 = CHR ''X'')
                 then (case r of [] \<Rightarrow> r | c2 # r' \<Rightarrow> if c2 = CHR ''_'' then r' else r)
                 else s2
             | _ \<Rightarrow> s2)
      in case digitos16 0 False s3 of
           None \<Rightarrow> None
         | Some v \<Rightarrow> Some (if negativo then - int v else int v))"

definition hash_a_numero :: "valor_hash \<Rightarrow> error + int" where
  "hash_a_numero hash_value =
     (case hash_value of
        HashStr s \<Rightarrow> (case int_base16 s of None \<Rightarrow> Inl LiteralInvalido | Some v \<Rightarrow> Inr v)
      | HashInt v \<Rightarrow> Inr v)"

definition firmar_hash :: "RSA \<Rightarrow> valor_hash \<Rightarrow> error + int" where
  "firmar_hash self hash_value =
     (case clave_privada self of
        None \<Rightarrow> Inl ClavePrivadaNoGenerada
      | Some (d, n) \<Rightarrow>
          (case hash_a_numero hash_value of
             Inl err \<Rightarrow> Inl err
           | Inr hash_num \<Rightarrow> py_pow hash_num d n))"

definition verificar_firma :: "RSA \<Rightarrow> valor_hash \<Rightarrow> int \<Rightarrow> error + bool" where
  "verificar_firma self hash_value firma =
     (case clave_publica self of
        None \<Rightarrow> Inl ClavePublicaNoDisponible
      | Some (e, n) \<Rightarrow>
          (case hash_a_numero hash_value of
             Inl err \<Rightarrow> Inl err
           | Inr hash_num \<Rightarrow>
               (case py_pow firma e n of
                  Inl err \<Rightarrow> Inl err
                | Inr hash_verificado \<Rightarrow> Inr (hash_num = hash_verificado))))"

text \<open>
  The precondition the callers of \<^verbatim>\<open>generar_claves\<close> are held to: both arguments are
  primes. The program never checks it.
\<close>

definition es_primo :: "int \<Rightarrow> bool" where
  "es_primo p \<longleftrightarrow> 1 < p \<and> (\<forall>m \<in> {2..<p}. \<not> m dvd p)"

section \<open>Properties of FNV1Hash\<close>

lemma hash_bucle_foldl:
  "hash_bucle F h bs = foldl (\<lambda>h b. ((h * FNV_prime F) AND mask_fnv F) XOR int b) h bs"
  by (induction bs arbitrary: h) simp_all

lemma and_mask32: "(x::int) AND 0xFFFFFFFF = x mod 2 ^ 32"
proof -
  have "(0xFFFFFFFF::int) = Bit_Operations.mask 32" by (simp add: mask_eq_exp_minus_1)
  then show ?thesis by (simp only: take_bit_eq_mod flip: take_bit_eq_mask)
qed

lemma and_mask64: "(x::int) AND 0xFFFFFFFFFFFFFFFF = x mod 2 ^ 64"
proof -
  have "(0xFFFFFFFFFFFFFFFF::int) = Bit_Operations.mask 64" by (simp add: mask_eq_exp_minus_1)
  then show ?thesis by (simp only: take_bit_eq_mod flip: take_bit_eq_mask)
qed

lemma hash_bucle_referencia:
  assumes "FNV1Hash_init bits = Inr F"
  shows "hash_bucle F h bs = fnv1_referencia (nat bits) (FNV_prime F) h bs"
proof -
  from assms consider
      "bits = 32" "F = \<lparr>FNV_prime = 16777619, FNV_offset_basis = 2166136261, mask_fnv = 0xFFFFFFFF\<rparr>"
    | "bits = 64" "F = \<lparr>FNV_prime = 1099511628211, FNV_offset_basis = 14695981039346656037,
             mask_fnv = 0xFFFFFFFFFFFFFFFF\<rparr>"
    by (auto simp: FNV1Hash_init_def split: if_splits)
  then show ?thesis
  proof cases
    case 1
    then show ?thesis
      by (simp add: hash_bucle_foldl fnv1_referencia_def and_mask32)
  next
    case 2
    then show ?thesis
      by (simp add: hash_bucle_foldl fnv1_referencia_def and_mask64)
  qed
qed

lemma hex_offset32: "hex_nat 2166136261 = ''811c9dc5''"
  by (simp add: hex_nat.simps digito_hex_def)

text \<open>
  C5: \<^verbatim>\<open>hash\<close> is the FNV-1 reference function on the bytes of its argument (the
  UTF-8 encoding of a string): the accumulator starts at the offset basis and each byte
  is handled by a multiplication by the prime modulo \<open>2 ^ bits\<close> followed by the xor.
  The hash of the empty input is the offset basis, and with 32 bits \<^verbatim>\<open>hash_hex("")\<close> is
  \<^verbatim>\<open>"811c9dc5"\<close>.
\<close>

theorem hash_es_fnv1:
  assumes "FNV1Hash_init bits = Inr F"
  shows "hash F data =
           (case (case data of Str s \<Rightarrow> encode_utf8 s | Bytes bs \<Rightarrow> Some bs) of
              None \<Rightarrow> Inl UnicodeEncodeError
            | Some bs \<Rightarrow>
                Inr (fnv1_referencia (nat bits) (FNV_prime F) (FNV_offset_basis F) bs))
         \<and> hash F (Str []) = Inr (FNV_offset_basis F)
         \<and> hash F (Bytes []) = Inr (FNV_offset_basis F)
         \<and> (case FNV1Hash_init 32 of
               Inl err \<Rightarrow> False
             | Inr F32 \<Rightarrow> hash_hex F32 (Str []) = Inr ''811c9dc5'')"
proof -
  have "hash F data =
           (case (case data of Str s \<Rightarrow> encode_utf8 s | Bytes bs \<Rightarrow> Some bs) of
              None \<Rightarrow> Inl UnicodeEncodeError
            | Some bs \<Rightarrow>
                Inr (fnv1_referencia (nat bits) (FNV_prime F) (FNV_offset_basis F) bs))"
    by (simp add: hash_def hash_bucle_referencia [OF assms] split: datos.splits option.splits)
  moreover have "hash F (Str []) = Inr (FNV_offset_basis F)"
    and "hash F (Bytes []) = Inr (FNV_offset_basis F)"
    by (simp_all add: hash_def)
  moreover have "case FNV1Hash_init 32 of
               Inl err \<Rightarrow> False
             | Inr F32 \<Rightarrow> hash_hex F32 (Str []) = Inr ''811c9dc5''"
    by (simp add: FNV1Hash_init_def hash_hex_def hash_def format_x_def hex_offset32)
  ultimately show ?thesis by blast
qed

theorem hash_es_fnv1_witness:
  "FNV1Hash_init 32 =
     Inr \<lparr>FNV_prime = 16777619, FNV_offset_basis = 2166136261, mask_fnv = 0xFFFFFFFF\<rparr>
   \<and> hash \<lparr>FNV_prime = 16777619, FNV_offset_basis = 2166136261, mask_fnv = 0xFFFFFFFF\<rparr>
        (Str [97]) = Inr (fnv1_referencia 32 16777619 2166136261 [97])
   \<and> hash \<lparr>FNV_prime = 16777619, FNV_offset_basis = 2166136261, mask_fnv = 0xFFFFFFFF\<rparr>
        (Str []) = Inr 2166136261"
proof -
  have h: "FNV1Hash_init 32 =
     Inr \<lparr>FNV_prime = 16777619, FNV_offset_basis = 2166136261, mask_fnv = 0xFFFFFFFF\<rparr>"
    by (simp add: FNV1Hash_init_def)
  show ?thesis
    using h hash_es_fnv1 [OF h, of "Str [97]"]
    by (simp add: utf8_codepoint_def)
qed

section \<open>Properties of HuffmanCompressor\<close>

subsection \<open>Dictionaries and the counter\<close>

lemma map_fst_dict_set:
  "map fst (dict_set d k v) = (if k \<in> fst ` set d then map fst d else map fst d @ [k])"
  by (induction d) force+

lemma dict_set_append: "k \<notin> fst ` set d \<Longrightarrow> dict_set d k v = d @ [(k, v)]"
  by (induction d) auto

lemma map_of_dict_set: "map_of (dict_set d k v) = (map_of d)(k \<mapsto> v)"
  by (induction d) auto

lemma Counter_fold_keys:
  "distinct (map fst d) \<Longrightarrow>
   distinct (map fst (foldl (\<lambda>d c. dict_set d c (case dict_get d c of None \<Rightarrow> 1 | Some n \<Rightarrow> n + 1)) d texto))
   \<and> set (map fst (foldl (\<lambda>d c. dict_set d c (case dict_get d c of None \<Rightarrow> 1 | Some n \<Rightarrow> n + (1::nat))) d texto))
       = set (map fst d) \<union> set texto"
proof (induction texto arbitrary: d)
  case Nil
  then show ?case by simp
next
  case (Cons c texto)
  let ?d = "dict_set d c (case dict_get d c of None \<Rightarrow> 1 | Some n \<Rightarrow> n + 1)"
  have "distinct (map fst ?d)" using Cons.prems by (simp add: map_fst_dict_set)
  from Cons.IH [OF this] show ?case
    by (auto simp: map_fst_dict_set)
qed

lemma Counter_keys: "distinct (map fst (Counter texto))" "set (map fst (Counter texto)) = set texto"
  using Counter_fold_keys [of "[]" texto] by (simp_all add: Counter_def)

subsection \<open>The heap operations keep the elements\<close>

lemma mset_update_update:
  "i < length xs \<Longrightarrow> j < length xs \<Longrightarrow> i \<noteq> j \<Longrightarrow>
   mset (xs[i := xs ! j, j := x]) = mset (xs[i := x])"
  by (simp add: mset_update nth_list_update)

lemma mset_siftdown_bucle:
  "pos < length heap \<Longrightarrow>
   mset (siftdown_bucle heap startpos pos newitem) = mset (heap[pos := newitem])"
proof (induction heap startpos pos newitem rule: siftdown_bucle.induct)
  case (1 heap startpos pos newitem)
  show ?case
  proof (cases "pos > startpos \<and> nodo_lt newitem (heap ! ((pos - 1) div 2))")
    case True
    then have pp: "(pos - 1) div 2 < pos" by auto
    with "1.prems" have lt: "(pos - 1) div 2 < length heap" by simp
    have "mset (siftdown_bucle heap startpos pos newitem) =
          mset (siftdown_bucle (heap[pos := heap ! ((pos - 1) div 2)]) startpos ((pos - 1) div 2) newitem)"
      using True by (subst siftdown_bucle.simps) (simp add: Let_def)
    also have "\<dots> = mset (heap[pos := heap ! ((pos - 1) div 2), (pos - 1) div 2 := newitem])"
      using "1.IH" [OF _ refl refl] True lt by simp
    also have "\<dots> = mset (heap[pos := newitem])"
      using mset_update_update [of pos heap "(pos - 1) div 2" newitem] "1.prems" lt pp by simp
    finally show ?thesis .
  next
    case False
    then show ?thesis by (subst siftdown_bucle.simps) (auto simp: Let_def)
  qed
qed

lemma mset_siftdown: "pos < length heap \<Longrightarrow> mset (siftdown heap startpos pos) = mset heap"
  by (simp add: siftdown_def mset_siftdown_bucle)

lemma siftup_bucle_props:
  "pos < length heap \<Longrightarrow> endpos \<le> length heap \<Longrightarrow> siftup_bucle heap endpos pos = (heap', pos') \<Longrightarrow>
   pos' < length heap \<and> length heap' = length heap \<and> mset (heap'[pos' := x]) = mset (heap[pos := x])"
proof (induction heap endpos pos arbitrary: heap' pos' rule: siftup_bucle.induct)
  case (1 heap endpos pos)
  show ?case
  proof (cases "2 * pos + 1 < endpos")
    case True
    define cp where "cp = (if 2 * pos + 1 + 1 < endpos \<and> \<not> nodo_lt (heap ! (2 * pos + 1)) (heap ! (2 * pos + 1 + 1))
                             then 2 * pos + 1 + 1 else 2 * pos + 1)"
    have cp: "cp < endpos" "pos < cp" using True by (auto simp: cp_def)
    have "siftup_bucle heap endpos pos = siftup_bucle (heap[pos := heap ! cp]) endpos cp"
      using True by (subst siftup_bucle.simps) (simp add: Let_def cp_def)
    with "1.prems"(3) have rec: "siftup_bucle (heap[pos := heap ! cp]) endpos cp = (heap', pos')"
      by simp
    have "pos' < length (heap[pos := heap ! cp]) \<and> length heap' = length (heap[pos := heap ! cp])
          \<and> mset (heap'[pos' := x]) = mset ((heap[pos := heap ! cp])[cp := x])"
      using "1.IH" [OF refl True refl cp_def _ _ rec] cp "1.prems" by simp
    moreover have "mset ((heap[pos := heap ! cp])[cp := x]) = mset (heap[pos := x])"
      using mset_update_update [of pos heap cp x] cp "1.prems" by simp
    ultimately show ?thesis by simp
  next
    case False
    then have "siftup_bucle heap endpos pos = (heap, pos)"
      by (subst siftup_bucle.simps) (simp add: Let_def)
    with "1.prems" show ?thesis by simp
  qed
qed

lemma mset_siftup: "pos < length heap \<Longrightarrow> mset (siftup heap pos) = mset heap"
proof -
  assume p: "pos < length heap"
  obtain heap' pos' where r: "siftup_bucle heap (length heap) pos = (heap', pos')"
    by (cases "siftup_bucle heap (length heap) pos")
  from siftup_bucle_props [OF p le_refl r, of "heap ! pos"]
  have "pos' < length heap'" "mset (heap'[pos' := heap ! pos]) = mset heap" by simp_all
  then show ?thesis
    by (simp add: siftup_def r mset_siftdown)
qed

lemma mset_heappush: "mset (heappush heap item) = add_mset item (mset heap)"
  by (simp add: heappush_def mset_siftdown)

lemma heappop_props:
  "heap \<noteq> [] \<Longrightarrow> \<exists>item heap'. heappop heap = Inr (item, heap') \<and> mset heap = add_mset item (mset heap')"
proof (cases heap rule: rev_cases)
  case Nil
  assume "heap \<noteq> []" with Nil show ?thesis by simp
next
  case (snoc xs lastelt)
  show ?thesis
  proof (cases "xs = []")
    case True
    with snoc show ?thesis by (simp add: heappop_def)
  next
    case False
    then have l: "0 < length xs" by simp
    have "mset (siftup (xs[0 := lastelt]) 0) = add_mset lastelt (mset xs - {#xs ! 0#})"
      using l by (simp add: mset_siftup mset_update)
    moreover have "xs ! 0 \<in># mset xs" using l by simp
    ultimately show ?thesis using snoc False
      by (simp add: heappop_def Let_def)
  qed
qed

subsection \<open>The tree built from a text\<close>

lemma hojas_heap_simps [simp]:
  "hojas_heap [] = {#}"
  by (simp add: hojas_heap_def)

lemma hojas_heap_mset:
  "mset heap = add_mset t (mset heap') \<Longrightarrow> hojas_heap heap = mset (hojas t) + hojas_heap heap'"
  by (simp add: hojas_heap_def)

lemma construir_bucle_props:
  "\<exists>heap'. construir_bucle heap = Inr heap' \<and> hojas_heap heap' = hojas_heap heap
      \<and> length heap' = min 1 (length heap)"
proof (induction heap rule: construir_bucle.induct)
  case (1 heap)
  show ?case
  proof (cases "length heap > 1")
    case False
    then show ?thesis
      by (subst construir_bucle.simps) (auto simp: min_def)
  next
    case True
    then have "heap \<noteq> []" by auto
    from heappop_props [OF this] obtain nodo1 heap1 where
      p1: "heappop heap = Inr (nodo1, heap1)" and m1: "mset heap = add_mset nodo1 (mset heap1)"
      by blast
    from length_heappop [OF p1] True have "heap1 \<noteq> []" by auto
    from heappop_props [OF this] obtain nodo2 heap2 where
      p2: "heappop heap1 = Inr (nodo2, heap2)" and m2: "mset heap1 = add_mset nodo2 (mset heap2)"
      by blast
    define nodo_padre where
      "nodo_padre = NodoHuffman None (frecuencia nodo1 + frecuencia nodo2) (Some nodo1) (Some nodo2)"
    from "1.IH" [OF True p1 refl p2 refl nodo_padre_def]
    obtain heap' where
      r: "construir_bucle (heappush heap2 nodo_padre) = Inr heap'"
      and h: "hojas_heap heap' = hojas_heap (heappush heap2 nodo_padre)"
      and l: "length heap' = min 1 (length (heappush heap2 nodo_padre))"
      by blast
    have "construir_bucle heap = construir_bucle (heappush heap2 nodo_padre)"
      using True p1 p2 by (subst construir_bucle.simps) (simp add: nodo_padre_def)
    moreover have "hojas_heap (heappush heap2 nodo_padre) = hojas_heap heap"
      using hojas_heap_mset [OF mset_heappush, of heap2 nodo_padre]
        hojas_heap_mset [OF m1] hojas_heap_mset [OF m2]
      by (simp add: nodo_padre_def)
    ultimately show ?thesis using r h l True by (simp add: min_def)
  qed
qed

lemma mset_heap_inicial:
  "mset (foldl (\<lambda>heap (simbolo, freq). heappush heap (nodo_init (Some simbolo) freq)) heap0 frecuencias)
   = mset heap0 + mset (map (\<lambda>(simbolo, freq). nodo_init (Some simbolo) freq) frecuencias)"
  by (induction frecuencias arbitrary: heap0) (auto simp: mset_heappush)

lemma hojas_heap_inicial:
  "hojas_heap (foldl (\<lambda>heap (simbolo, freq). heappush heap (nodo_init (Some simbolo) freq)) [] frecuencias)
   = mset (map fst frecuencias)"
proof -
  have "(\<Sum>t \<in># mset (map (\<lambda>(simbolo, freq). nodo_init (Some simbolo) freq) frecuencias). mset (hojas t))
        = mset (map fst frecuencias)" for frecuencias :: "('a \<times> nat) list"
    by (induction frecuencias) (auto simp: nodo_init_def)
  then show ?thesis
    by (simp add: hojas_heap_def mset_heap_inicial)
qed

lemma Counter_no_vacio: "texto \<noteq> [] \<Longrightarrow> Counter texto \<noteq> []"
  using Counter_keys(2) [of texto] by auto

lemma construir_arbol_props:
  assumes "texto \<noteq> []"
  shows "\<exists>raiz. construir_arbol texto = Inr (Some raiz) \<and> distinct (hojas raiz)
           \<and> set (hojas raiz) = set texto"
proof -
  define heap where
    "heap = foldl (\<lambda>heap (simbolo, freq). heappush heap (nodo_init (Some simbolo) freq)) []
              (Counter texto)"
  have hh: "hojas_heap heap = mset (map fst (Counter texto))"
    by (simp add: heap_def hojas_heap_inicial)
  have "mset heap \<noteq> {#}"
    using Counter_no_vacio [OF assms] by (simp add: heap_def mset_heap_inicial)
  then have ne: "heap \<noteq> []" by auto
  from construir_bucle_props [of heap] obtain heap' where
    r: "construir_bucle heap = Inr heap'" and h: "hojas_heap heap' = hojas_heap heap"
    and l: "length heap' = min 1 (length heap)" by blast
  from l ne have "length heap' = 1" by (cases heap) (auto simp: min_def)
  then obtain raiz where heap': "heap' = [raiz]"
    by (cases heap') auto
  have "mset (hojas raiz) = mset (map fst (Counter texto))"
    using h hh by (simp add: heap' hojas_heap_def)
  then have "distinct (hojas raiz)" "set (hojas raiz) = set texto"
    using Counter_keys [of texto] by (metis mset_eq_imp_distinct_iff, metis mset_eq_setD)
  moreover have "construir_arbol texto = Inr (Some raiz)"
    using assms r by (simp add: construir_arbol_def Let_def heap' flip: heap_def)
  ultimately show ?thesis by blast
qed

subsection \<open>The code table of a tree\<close>

lemma map_fst_codigos_arbol: "map fst (codigos_arbol t pre) = hojas t"
  by (induction t pre rule: codigos_arbol.induct) (auto split: option.splits)

lemma codigos_arbol_en_hojas: "(a, b) \<in> set (codigos_arbol t pre) \<Longrightarrow> a \<in> set (hojas t)"
  using map_fst_codigos_arbol [of t pre] by (metis fst_conv image_eqI set_map)

lemma generar_codigos_rec_append:
  "distinct (map fst d @ hojas t) \<Longrightarrow> generar_codigos_rec t pre d = d @ codigos_arbol t pre"
proof (induction t pre d rule: generar_codigos_rec.induct)
  case (1 s f izq der codigo_actual codigos)
  show ?case
  proof (cases s)
    case (Some sim)
    with "1.prems" show ?thesis by (simp add: dict_set_append)
  next
    case None
    define codigos1 where "codigos1 =
      (case izq of Some nodo \<Rightarrow> generar_codigos_rec nodo (codigo_actual @ ''0'') codigos
       | None \<Rightarrow> codigos)"
    define L where "L = (case izq of Some nodo \<Rightarrow> codigos_arbol nodo (codigo_actual @ ''0'') | None \<Rightarrow> [])"
    define hl where "hl = (case izq of Some nodo \<Rightarrow> hojas nodo | None \<Rightarrow> [])"
    define hr where "hr = (case der of Some nodo \<Rightarrow> hojas nodo | None \<Rightarrow> [])"
    have d: "distinct (map fst codigos @ hl @ hr)"
      using "1.prems" None by (simp add: hl_def hr_def)
    have mL: "map fst L = hl"
      by (simp add: L_def hl_def map_fst_codigos_arbol split: option.splits)
    have c1: "codigos1 = codigos @ L"
    proof (cases izq)
      case None then show ?thesis by (simp add: codigos1_def L_def)
    next
      case (Some nodo)
      have "distinct (map fst codigos @ hojas nodo)"
        using d Some by (auto simp: hl_def)
      from "1.IH"(1) [OF None Some this] show ?thesis
        by (simp add: codigos1_def L_def Some)
    qed
    show ?thesis
    proof (cases der)
      case None': None
      with None c1 show ?thesis by (simp add: codigos1_def L_def Let_def)
    next
      case (Some nodo)
      have "distinct (map fst codigos1 @ hojas nodo)"
        using d Some by (auto simp: c1 mL hr_def)
      from "1.IH"(2) [OF None codigos1_def Some this] show ?thesis
        using None Some c1 by (simp add: Let_def L_def flip: codigos1_def)
    qed
  qed
qed

lemma codigos_arbol_prefijo:
  "(s, c) \<in> set (codigos_arbol t pre) \<Longrightarrow> prefix pre c"
proof (induction t pre arbitrary: s c rule: codigos_arbol.induct)
  case (1 sim f izq der codigo_actual)
  show ?case
  proof (cases sim)
    case (Some a)
    with "1.prems" show ?thesis by simp
  next
    case None
    with "1.prems" consider
        nodo where "izq = Some nodo" "(s, c) \<in> set (codigos_arbol nodo (codigo_actual @ ''0''))"
      | nodo where "der = Some nodo" "(s, c) \<in> set (codigos_arbol nodo (codigo_actual @ ''1''))"
      by (auto split: option.splits)
    then show ?thesis
    proof cases
      case 1
      from "1.IH"(1) [OF None 1] show ?thesis by (rule append_prefixD)
    next
      case 2
      from "1.IH"(2) [OF None 2] show ?thesis by (rule append_prefixD)
    qed
  qed
qed

lemma libre_de_prefijos_codigos_arbol: "libre_de_prefijos (codigos_arbol t pre)"
proof (induction t pre rule: codigos_arbol.induct)
  case (1 sim f izq der codigo_actual)
  show ?case
  proof (cases sim)
    case (Some a)
    then show ?thesis by (simp add: libre_de_prefijos_def)
  next
    case None
    define L where "L = (case izq of Some nodo \<Rightarrow> codigos_arbol nodo (codigo_actual @ ''0'') | None \<Rightarrow> [])"
    define R where "R = (case der of Some nodo \<Rightarrow> codigos_arbol nodo (codigo_actual @ ''1'') | None \<Rightarrow> [])"
    have L1: "libre_de_prefijos L"
      using "1.IH"(1) [OF None] by (cases izq) (simp_all add: L_def libre_de_prefijos_def)
    have L2: "prefix (codigo_actual @ ''0'') c" if "(s, c) \<in> set L" for s c
      using that by (cases izq) (auto simp: L_def dest: codigos_arbol_prefijo)
    have R1: "libre_de_prefijos R"
      using "1.IH"(2) [OF None] by (cases der) (simp_all add: R_def libre_de_prefijos_def)
    have R2: "prefix (codigo_actual @ ''1'') c" if "(s, c) \<in> set R" for s c
      using that by (cases der) (auto simp: R_def dest: codigos_arbol_prefijo)
    have cross: "\<not> prefix c1 c2 \<and> \<not> prefix c2 c1"
      if "prefix (codigo_actual @ ''0'') c1" "prefix (codigo_actual @ ''1'') c2" for c1 c2
      using that by (auto simp: prefix_def)
    have eq: "codigos_arbol (NodoHuffman sim f izq der) codigo_actual = L @ R"
      using None by (simp add: L_def R_def)
    show ?thesis
      unfolding eq libre_de_prefijos_def
    proof (intro ballI, clarify)
      fix s1 c1 s2 c2
      assume a: "(s1, c1) \<in> set (L @ R)" "(s2, c2) \<in> set (L @ R)" "s1 \<noteq> s2" "prefix c1 c2"
      then consider "(s1, c1) \<in> set L" "(s2, c2) \<in> set L" | "(s1, c1) \<in> set R" "(s2, c2) \<in> set R"
        | "(s1, c1) \<in> set L" "(s2, c2) \<in> set R" | "(s1, c1) \<in> set R" "(s2, c2) \<in> set L"
        by auto
      then show False
      proof cases
        case 1 with L1 a show ?thesis unfolding libre_de_prefijos_def by blast
      next
        case 2 with R1 a show ?thesis unfolding libre_de_prefijos_def by blast
      next
        case 3 with cross [OF L2 R2] a show ?thesis by blast
      next
        case 4 with cross [OF L2 R2] a show ?thesis by blast
      qed
    qed
  qed
qed

subsection \<open>Packing bits into bytes\<close>

lemma es_binaria_simps [simp]:
  "es_binaria []"
  "es_binaria (c # s) \<longleftrightarrow> (c = CHR ''0'' \<or> c = CHR ''1'') \<and> es_binaria s"
  "es_binaria (s @ t) \<longleftrightarrow> es_binaria s \<and> es_binaria t"
  "es_binaria (replicate n (CHR ''0''))"
  by (auto simp: es_binaria_def)

lemma es_binaria_take_drop: "es_binaria s \<Longrightarrow> es_binaria (take n s) \<and> es_binaria (drop n s)"
  unfolding es_binaria_def by (meson in_set_dropD in_set_takeD subset_code(1))

lemma valor_base2_snoc:
  "valor_base2 acc (s @ [c]) =
     (case valor_base2 acc s of
        None \<Rightarrow> None
      | Some v \<Rightarrow> if c = CHR ''0'' then Some (2 * v) else if c = CHR ''1'' then Some (2 * v + 1) else None)"
  by (induction s arbitrary: acc) auto

lemma valor_base2_digitos:
  "es_binaria s \<Longrightarrow> \<exists>v. valor_base2 0 s = Some v \<and> v < 2 ^ length s \<and> digitos (length s) v = s"
proof (induction s rule: rev_induct)
  case Nil
  then show ?case by simp
next
  case (snoc c s)
  then obtain v where v: "valor_base2 0 s = Some v" "v < 2 ^ length s" "digitos (length s) v = s"
    by auto
  from snoc.prems have "c = CHR ''0'' \<or> c = CHR ''1''" by simp
  then show ?case
  proof
    assume "c = CHR ''0''"
    with v show ?thesis by (simp add: valor_base2_snoc)
  next
    assume "c = CHR ''1''"
    with v show ?thesis by (simp add: valor_base2_snoc)
  qed
qed

lemma digitos_cero: "digitos k 0 = replicate k (CHR ''0'')"
  by (induction k) (simp_all add: replicate_append_same)

lemma bin_nat_digitos:
  "n < 2 ^ k \<Longrightarrow> 0 < k \<Longrightarrow>
   length (bin_nat n) \<le> k \<and> replicate (k - length (bin_nat n)) (CHR ''0'') @ bin_nat n = digitos k n"
proof (induction k arbitrary: n)
  case 0
  then show ?case by simp
next
  case (Suc k)
  show ?case
  proof (cases "n < 2")
    case True
    then have "bin_nat n = [if n = 0 then CHR ''0'' else CHR ''1'']"
      by (subst bin_nat.simps) simp
    moreover from True have "n div 2 = 0" "(n mod 2 = 0) = (n = 0)" by auto
    ultimately show ?thesis by (simp add: digitos_cero)
  next
    case False
    then have b: "bin_nat n = bin_nat (n div 2) @ [if n mod 2 = 0 then CHR ''0'' else CHR ''1'']"
      by (subst bin_nat.simps) simp
    from False Suc.prems have k: "0 < k" by (cases k) auto
    from Suc.prems have "n div 2 < 2 ^ k" by auto
    from Suc.IH [OF this k] show ?thesis
      by (simp add: b Suc_diff_le)
  qed
qed

lemma digitos_map:
  "digitos k n = map (\<lambda>i. if (n div 2 ^ (k - 1 - i)) mod 2 = 1 then CHR ''1'' else CHR ''0'') [0..<k]"
proof (induction k arbitrary: n)
  case 0
  then show ?case by simp
next
  case (Suc k)
  have "(n div 2) div 2 ^ (k - 1 - i) = n div 2 ^ (k - i)" if "i < k" for i
  proof -
    from that have "(2::nat) ^ (k - i) = 2 * 2 ^ (k - 1 - i)"
      by (metis Suc_diff_Suc diff_Suc_eq_diff_pred power_Suc)
    then show ?thesis by (simp add: div_mult2_eq)
  qed
  then have "map (\<lambda>i. if ((n div 2) div 2 ^ (k - 1 - i)) mod 2 = 1 then CHR ''1'' else CHR ''0'') [0..<k]
           = map (\<lambda>i. if (n div 2 ^ (k - i)) mod 2 = 1 then CHR ''1'' else CHR ''0'') [0..<k]"
    by simp
  with Suc.IH [of "n div 2"] show ?case by auto
qed

lemma digitos_8: "digitos 8 n = byte_a_bits n"
  unfolding byte_a_bits_def by (subst digitos_map) simp

lemma format_08b_byte: "b < 256 \<Longrightarrow> format_08b b = byte_a_bits b"
  using bin_nat_digitos [of b 8] by (simp add: format_08b_def digitos_8)

lemma int_base2_byte:
  assumes "es_binaria s" "length s = 8"
  shows "\<exists>v. int_base2 s = Some v \<and> v < 256 \<and> byte_a_bits v = s"
proof -
  from valor_base2_digitos [OF assms(1)] assms(2)
  obtain v where "valor_base2 0 s = Some v" "v < 2 ^ 8" "digitos 8 v = s" by auto
  moreover from assms(2) have "s \<noteq> []" by auto
  ultimately show ?thesis by (simp add: int_base2_def digitos_8)
qed

lemma empaquetar_props:
  "es_binaria bits \<Longrightarrow> length bits mod 8 = 0 \<Longrightarrow>
   \<exists>bs. empaquetar bits = Inr bs \<and> concat (map byte_a_bits bs) = bits
          \<and> (\<forall>b \<in> set bs. b < 256) \<and> 8 * length bs = length bits"
proof (induction bits rule: empaquetar.induct)
  case (1 bits)
  show ?case
  proof (cases "bits = []")
    case True
    then show ?thesis by (subst empaquetar.simps) simp
  next
    case False
    with "1.prems"(2) have len: "8 \<le> length bits" by (cases "length bits < 8") auto
    then have l8: "length (take 8 bits) = 8" by simp
    from int_base2_byte [OF _ l8] es_binaria_take_drop [OF "1.prems"(1)]
    obtain v where v: "int_base2 (take 8 bits) = Some v" "v < 256" "byte_a_bits v = take 8 bits"
      by blast
    have "length (drop 8 bits) mod 8 = 0"
      using "1.prems"(2) len by (simp add: mod_diff_eq [symmetric] le_mod_geq)
    from "1.IH" [OF False v(1) _ this] es_binaria_take_drop [OF "1.prems"(1)]
    obtain bs where bs: "empaquetar (drop 8 bits) = Inr bs" "concat (map byte_a_bits bs) = drop 8 bits"
      "\<forall>b \<in> set bs. b < 256" "8 * length bs = length (drop 8 bits)" by blast
    have "empaquetar bits = Inr (v # bs)"
      using False v(1) bs(1) by (subst empaquetar.simps) simp
    moreover have "concat (map byte_a_bits (v # bs)) = bits"
      using v(3) bs(2) by simp
    ultimately show ?thesis using v(2) bs(3,4) len by auto
  qed
qed

subsection \<open>The code table and the compressed format\<close>

lemma codigos_arbol_binarios:
  "es_binaria pre \<Longrightarrow> (s, c) \<in> set (codigos_arbol t pre) \<Longrightarrow> es_binaria c"
proof (induction t pre arbitrary: s c rule: codigos_arbol.induct)
  case (1 sim f izq der codigo_actual)
  show ?case
  proof (cases sim)
    case (Some a)
    with "1.prems" show ?thesis by simp
  next
    case None
    with "1.prems" consider
        nodo where "izq = Some nodo" "(s, c) \<in> set (codigos_arbol nodo (codigo_actual @ ''0''))"
      | nodo where "der = Some nodo" "(s, c) \<in> set (codigos_arbol nodo (codigo_actual @ ''1''))"
      by (auto split: option.splits)
    then show ?thesis
    proof cases
      case 1
      from "1.IH"(1) [OF None 1(1) _ 1(2)] "1.prems"(1) show ?thesis by simp
    next
      case 2
      from "1.IH"(2) [OF None 2(1) _ 2(2)] "1.prems"(1) show ?thesis by simp
    qed
  qed
qed

lemma codificar_concat:
  "\<forall>c \<in> set texto. dict_get codigos c \<noteq> None \<Longrightarrow>
   codificar codigos bits texto = Inr (bits @ concat (map (\<lambda>c. the (dict_get codigos c)) texto))"
  by (induction texto arbitrary: bits) auto

lemma generar_codigos_props:
  assumes "texto \<noteq> []"
  shows "\<exists>raiz codigos. construir_arbol texto = Inr (Some raiz)
           \<and> generar_codigos (Some raiz) = Inr codigos
           \<and> codigos = codigos_arbol raiz []
           \<and> distinct (map fst codigos) \<and> set (map fst codigos) = set texto"
proof -
  from construir_arbol_props [OF assms] obtain raiz where
    r: "construir_arbol texto = Inr (Some raiz)" "distinct (hojas raiz)" "set (hojas raiz) = set texto"
    by blast
  have "generar_codigos_rec raiz [] [] = codigos_arbol raiz []"
    using generar_codigos_rec_append [of "[]" raiz "[]"] r(2) by simp
  moreover have "set (map fst (codigos_arbol raiz [])) = set texto"
    using r(3) by (simp only: map_fst_codigos_arbol)
  ultimately show ?thesis
    using r by (simp add: generar_codigos_def map_fst_codigos_arbol del: set_map)
qed

lemma dict_get_Some:
  "distinct (map fst d) \<Longrightarrow> dict_get d k = Some v \<longleftrightarrow> (k, v) \<in> set d"
  by (simp add: dict_get_def)

lemma dict_get_None: "dict_get d k = None \<longleftrightarrow> k \<notin> set (map fst d)"
  by (simp add: dict_get_def map_of_eq_None_iff)

subsection \<open>Decoding a prefix-free table\<close>

lemma codigos_inversos_append:
  "distinct (map snd codigos) \<Longrightarrow> snd ` set d \<inter> {} = {} \<Longrightarrow>
   fst ` set d \<inter> snd ` set codigos = {} \<Longrightarrow>
   foldl (\<lambda>d (k, v). dict_set d v k) d codigos = d @ map (\<lambda>(k, v). (v, k)) codigos"
proof (induction codigos arbitrary: d)
  case Nil
  then show ?case by simp
next
  case (Cons kv codigos)
  obtain k v where kv: "kv = (k, v)" by (cases kv)
  have "v \<notin> fst ` set d" using Cons.prems(3) kv by auto
  then have s: "dict_set d v k = d @ [(v, k)]" by (rule dict_set_append)
  have "fst ` set (d @ [(v, k)]) \<inter> snd ` set codigos = {}"
    using Cons.prems(1,3) kv by auto
  from Cons.IH [OF _ _ this] Cons.prems(1) show ?case
    by (simp add: kv s)
qed

lemma codigos_inversos_get:
  assumes "distinct (map snd codigos)"
  shows "dict_get (foldl (\<lambda>d (k, v). dict_set d v k) [] codigos) x = Some s
         \<longleftrightarrow> (s, x) \<in> set codigos"
proof -
  have eq: "foldl (\<lambda>d (k, v). dict_set d v k) [] codigos = map (\<lambda>(k, v). (v, k)) codigos"
    using codigos_inversos_append [OF assms, of "[]"] by simp
  have "map fst (map (\<lambda>(k, v). (v, k)) codigos) = map snd codigos"
    by (induction codigos) auto
  with assms have "distinct (map fst (map (\<lambda>(k, v). (v, k)) codigos))" by (simp only:)
  then have "map_of (map (\<lambda>(k, v). (v, k)) codigos) x = Some s
      \<longleftrightarrow> (x, s) \<in> set (map (\<lambda>(k, v). (v, k)) codigos)"
    by simp
  also have "\<dots> \<longleftrightarrow> (s, x) \<in> set codigos" by auto
  finally show ?thesis by (simp add: eq dict_get_def)
qed

lemma libre_de_prefijos_distinct_codigos:
  assumes "libre_de_prefijos codigos" "distinct (map fst codigos)"
  shows "distinct (map snd codigos)"
proof -
  have "distinct codigos" using assms(2) by (rule distinct_map [THEN iffD1, THEN conjunct1])
  moreover have "inj_on snd (set codigos)"
  proof (rule inj_onI)
    fix a b assume ab: "a \<in> set codigos" "b \<in> set codigos" "snd a = snd b"
    obtain s1 c1 s2 c2 where e: "a = (s1, c1)" "b = (s2, c2)" by (cases a, cases b) auto
    with ab assms(1) have "s1 = s2" unfolding libre_de_prefijos_def by fastforce
    with ab e show "a = b" by simp
  qed
  ultimately show ?thesis by (simp add: distinct_map)
qed

lemma decodificar_codigo:
  assumes inv: "\<And>x s. dict_get inverso x = Some s \<longleftrightarrow> (s, x) \<in> set codigos"
    and lp: "libre_de_prefijos codigos" and dk: "distinct (map fst codigos)"
    and sc: "(s, pre @ suf) \<in> set codigos" and ne: "suf \<noteq> []"
  shows "decodificar inverso (suf @ resto) pre salida = decodificar inverso resto [] (salida @ [s])"
  using sc ne
proof (induction suf arbitrary: pre)
  case Nil
  then show ?case by simp
next
  case (Cons b suf)
  show ?case
  proof (cases "suf = []")
    case True
    with Cons.prems(1) have "dict_get inverso (pre @ [b]) = Some s" by (simp add: inv)
    with True show ?thesis by simp
  next
    case False
    have "dict_get inverso (pre @ [b]) = None"
    proof (rule ccontr)
      assume "dict_get inverso (pre @ [b]) \<noteq> None"
      then obtain s' where s': "(s', pre @ [b]) \<in> set codigos" by (auto simp: inv)
      have p: "prefix (pre @ [b]) (pre @ b # suf)" by simp
      have "s' \<noteq> s"
      proof
        assume "s' = s"
        with s' Cons.prems(1) dk have "pre @ [b] = pre @ b # suf"
          by (meson eq_key_imp_eq_value)
        with False show False by simp
      qed
      with lp s' Cons.prems(1) p show False unfolding libre_de_prefijos_def by fastforce
    qed
    moreover have "(s, (pre @ [b]) @ suf) \<in> set codigos" using Cons.prems(1) by simp
    note Cons.IH [OF this False]
    ultimately show ?thesis by simp
  qed
qed

lemma decodificar_texto:
  assumes inv: "\<And>x s. dict_get inverso x = Some s \<longleftrightarrow> (s, x) \<in> set codigos"
    and lp: "libre_de_prefijos codigos" and dk: "distinct (map fst codigos)"
    and ne: "\<And>s. (s, []) \<notin> set codigos"
  shows "set texto \<subseteq> fst ` set codigos \<Longrightarrow>
   decodificar inverso (concat (map (\<lambda>c. the (dict_get codigos c)) texto)) [] salida = salida @ texto"
proof (induction texto arbitrary: salida)
  case Nil
  then show ?case by simp
next
  case (Cons c texto)
  then obtain w where w: "(c, w) \<in> set codigos" by auto
  with dk have g: "dict_get codigos c = Some w" by (simp add: dict_get_def)
  from w ne have "w \<noteq> []" by auto
  from decodificar_codigo [OF inv lp dk, of c "[]" w, simplified, OF w this]
  have "decodificar inverso (w @ concat (map (\<lambda>c. the (dict_get codigos c)) texto)) [] salida
      = decodificar inverso (concat (map (\<lambda>c. the (dict_get codigos c)) texto)) [] (salida @ [c])" .
  with Cons show ?case by (simp add: g)
qed

lemma comprimir_estructura:
  assumes "texto \<noteq> []"
  shows "\<exists>padding payload codigos bits.
           comprimir texto = Inr (padding # payload, codigos)
           \<and> distinct (map fst codigos) \<and> set (map fst codigos) = set texto
           \<and> libre_de_prefijos codigos
           \<and> (\<forall>c \<in> set texto. dict_get codigos c \<noteq> None)
           \<and> bits = concat (map (\<lambda>c. the (dict_get codigos c)) texto)
           \<and> padding \<le> 7
           \<and> padding = (8 - length bits mod 8) mod 8
           \<and> 8 * length payload = length bits + padding
           \<and> (\<forall>b \<in> set payload. b < 256)
           \<and> concat (map byte_a_bits payload) = bits @ replicate padding (CHR ''0'')"
proof -
  from generar_codigos_props [OF assms] obtain raiz codigos where
    r: "construir_arbol texto = Inr (Some raiz)" "generar_codigos (Some raiz) = Inr codigos"
       "codigos = codigos_arbol raiz []" "distinct (map fst codigos)"
       "set (map fst codigos) = set texto" by blast
  have lp: "libre_de_prefijos codigos"
    unfolding r(3) by (rule libre_de_prefijos_codigos_arbol)
  have todos: "\<forall>c \<in> set texto. dict_get codigos c \<noteq> None"
    using r(5) by (simp add: dict_get_None)
  define bits where "bits = concat (map (\<lambda>c. the (dict_get codigos c)) texto)"
  have cod: "codificar codigos [] texto = Inr bits"
    using codificar_concat [OF todos, of "[]"] by (simp add: bits_def)
  have "es_binaria (the (dict_get codigos c))" if "c \<in> set texto" for c
  proof -
    from todos that obtain v where v: "dict_get codigos c = Some v" by auto
    with r(4) have "(c, v) \<in> set (codigos_arbol raiz [])"
      by (simp add: dict_get_Some r(3))
    from codigos_arbol_binarios [OF _ this] v show ?thesis by simp
  qed
  then have bin: "es_binaria bits"
    unfolding bits_def es_binaria_def by auto
  define padding where "padding = (if 8 - length bits mod 8 = 8 then 0 else 8 - length bits mod 8)"
  have p: "padding \<le> 7" "padding = (8 - length bits mod 8) mod 8"
    by (auto simp: padding_def)
  have "(length bits + padding) mod 8 = 0"
    unfolding padding_def by (simp add: mod_Suc) presburger
  with bin have "\<exists>bs. empaquetar (bits @ replicate padding (CHR ''0'')) = Inr bs
      \<and> concat (map byte_a_bits bs) = bits @ replicate padding (CHR ''0'')
      \<and> (\<forall>b \<in> set bs. b < 256) \<and> 8 * length bs = length (bits @ replicate padding (CHR ''0''))"
    by (intro empaquetar_props) simp_all
  then obtain payload where e: "empaquetar (bits @ replicate padding (CHR ''0'')) = Inr payload"
    "concat (map byte_a_bits payload) = bits @ replicate padding (CHR ''0'')"
    "\<forall>b \<in> set payload. b < 256" "8 * length payload = length bits + padding" by auto
  have "comprimir texto = Inr (padding # payload, codigos)"
    using assms r(1,2) cod e(1) by (simp add: comprimir_def Let_def padding_def)
  with todos p e r(4,5) lp show ?thesis unfolding bits_def by blast
qed

lemma concat_format_08b:
  "\<forall>b \<in> set payload. b < 256 \<Longrightarrow> concat (map format_08b payload) = concat (map byte_a_bits payload)"
  by (induction payload) (simp_all add: format_08b_byte)

subsection \<open>The claims on the table and on the format\<close>

text \<open>
  C7: for every text with at least two distinct symbols, \<^verbatim>\<open>construir_arbol\<close> returns a
  tree, \<^verbatim>\<open>generar_codigos\<close> returns a table with one entry per symbol of the text, and
  the table is prefix-free: for two different symbols neither code is a prefix of the
  other.
\<close>

theorem codigos_libres_de_prefijos:
  assumes "2 \<le> card (set texto)"
  shows "\<exists>raiz codigos. construir_arbol texto = Inr (Some raiz)
           \<and> generar_codigos (Some raiz) = Inr codigos
           \<and> distinct (map fst codigos) \<and> set (map fst codigos) = set texto
           \<and> libre_de_prefijos codigos"
proof -
  from assms have "texto \<noteq> []" by auto
  from generar_codigos_props [OF this] show ?thesis
    using libre_de_prefijos_codigos_arbol by blast
qed

theorem codigos_libres_de_prefijos_witness:
  "2 \<le> card (set ''AAAB'') \<and>
   (\<exists>raiz codigos. construir_arbol ''AAAB'' = Inr (Some raiz)
           \<and> generar_codigos (Some raiz) = Inr codigos
           \<and> distinct (map fst codigos) \<and> set (map fst codigos) = set ''AAAB''
           \<and> libre_de_prefijos codigos)"
proof -
  have h: "2 \<le> card (set ''AAAB'')" by simp
  from h codigos_libres_de_prefijos [OF h] show ?thesis by blast
qed

text \<open>
  C6: for every non-empty text \<^verbatim>\<open>comprimir\<close> returns a blob whose first byte is the
  padding count, between 0 and 7 (a computed 8 becomes 0); the payload has eight bits per
  byte, its bit length is the length of the concatenated codes plus the padding, and its
  bits, most significant first in each byte, are the concatenated codes of the characters
  followed by that many zeros.
\<close>

theorem comprimir_formato:
  assumes "texto \<noteq> []"
  shows "\<exists>padding payload codigos bits.
           comprimir texto = Inr (padding # payload, codigos)
           \<and> (\<forall>c \<in> set texto. dict_get codigos c \<noteq> None)
           \<and> bits = concat (map (\<lambda>c. the (dict_get codigos c)) texto)
           \<and> padding \<le> 7
           \<and> padding = (8 - length bits mod 8) mod 8
           \<and> 8 * length payload = length bits + padding
           \<and> (\<forall>b \<in> set payload. b < 256)
           \<and> concat (map byte_a_bits payload) = bits @ replicate padding (CHR ''0'')"
proof -
  from comprimir_estructura [OF assms] obtain padding payload codigos bits where
    "comprimir texto = Inr (padding # payload, codigos)"
    and "\<forall>c \<in> set texto. dict_get codigos c \<noteq> None"
    and "bits = concat (map (\<lambda>c. the (dict_get codigos c)) texto)"
    and "padding \<le> 7" and "padding = (8 - length bits mod 8) mod 8"
    and "8 * length payload = length bits + padding"
    and "\<forall>b \<in> set payload. b < 256"
    and "concat (map byte_a_bits payload) = bits @ replicate padding (CHR ''0'')"
    by blast
  then show ?thesis by blast
qed

theorem comprimir_formato_witness:
  "''AAAB'' \<noteq> []
   \<and> comprimir ''AAAB'' = Inr ([4, 224], [(CHR ''B'', ''0''), (CHR ''A'', ''1'')])
   \<and> (\<exists>padding payload codigos bits.
           comprimir ''AAAB'' = Inr (padding # payload, codigos)
           \<and> (\<forall>c \<in> set ''AAAB''. dict_get codigos c \<noteq> None)
           \<and> bits = concat (map (\<lambda>c. the (dict_get codigos c)) ''AAAB'')
           \<and> padding \<le> 7
           \<and> padding = (8 - length bits mod 8) mod 8
           \<and> 8 * length payload = length bits + padding
           \<and> (\<forall>b \<in> set payload. b < 256)
           \<and> concat (map byte_a_bits payload) = bits @ replicate padding (CHR ''0''))"
proof -
  have h: "''AAAB'' \<noteq> []" by simp
  have "comprimir ''AAAB'' = Inr ([4, 224], [(CHR ''B'', ''0''), (CHR ''A'', ''1'')])"
    by code_simp
  with h comprimir_formato [OF h] show ?thesis by blast
qed

subsection \<open>Texts with a single symbol, and the scenario AAAB\<close>

lemma Counter_fold_un_simbolo:
  "foldl (\<lambda>d c. dict_set d c (case dict_get d c of None \<Rightarrow> 1 | Some n \<Rightarrow> n + 1)) [(c, k)]
     (replicate n c) = [(c, k + n)]"
  by (induction n arbitrary: k) (simp_all add: dict_get_def)

lemma Counter_un_simbolo: "Counter (replicate (Suc n) c) = [(c, Suc n)]"
  using Counter_fold_un_simbolo [of c 1 n] by (simp add: Counter_def dict_get_def)

lemma codificar_un_simbolo: "codificar [(c, [])] bits (replicate n c) = Inr bits"
  by (induction n) (simp_all add: dict_get_def)

lemma comprimir_un_simbolo:
  "comprimir (replicate (Suc n) c) = Inr ([0], [(c, [])])"
proof -
  define texto where "texto = replicate (Suc n) c"
  have ne: "texto \<noteq> []" by (simp add: texto_def)
  have cnt: "Counter texto = [(c, Suc n)]"
    unfolding texto_def by (rule Counter_un_simbolo)
  have "construir_arbol texto = Inr (Some (NodoHuffman (Some c) (Suc n) None None))"
    using ne by (simp add: construir_arbol_def cnt heappush_def siftdown_def
        siftdown_bucle.simps construir_bucle.simps nodo_init_def)
  moreover have "generar_codigos (Some (NodoHuffman (Some c) (Suc n) None None)) = Inr [(c, [])]"
    by (simp add: generar_codigos_def)
  moreover have "empaquetar [] = Inr []"
    by (simp add: empaquetar.simps)
  moreover have "codificar [(c, [])] [] texto = Inr []"
    unfolding texto_def by (rule codificar_un_simbolo)
  ultimately have "comprimir texto = Inr ([0], [(c, [])])"
    using ne by (simp add: comprimir_def)
  then show ?thesis by (simp only: texto_def)
qed

lemma descomprimir_un_simbolo: "descomprimir [0] [(c, [])] = []"
  by (simp add: descomprimir_def)

text \<open>
  C10: for every text made of one symbol \<open>c\<close>, \<^verbatim>\<open>comprimir\<close> returns the one-byte blob
  \<open>[0]\<close> (the padding header and no payload) with the table that maps \<open>c\<close> to the empty
  code, and \<^verbatim>\<open>descomprimir\<close> on that blob and table returns the empty text.
\<close>

theorem un_simbolo_comprimir_descomprimir:
  assumes "set texto = {c}"
  shows "comprimir texto = Inr ([0], [(c, [])]) \<and> descomprimir [0] [(c, [])] = []"
proof -
  from assms have "texto = replicate (length texto) c"
    by (metis replicate_length_same singletonD)
  moreover from assms have "texto \<noteq> []" by auto
  ultimately obtain n where "texto = replicate (Suc n) c"
    by (cases "length texto") auto
  then show ?thesis
    by (simp only: comprimir_un_simbolo descomprimir_un_simbolo)
qed

theorem un_simbolo_comprimir_descomprimir_witness:
  "set ''aaa'' = {CHR ''a''} \<and> comprimir ''aaa'' = Inr ([0], [(CHR ''a'', [])])
   \<and> descomprimir [0] [(CHR ''a'', [])] = ([] :: string)"
proof -
  have h: "set ''aaa'' = {CHR ''a''}" by simp
  from h un_simbolo_comprimir_descomprimir [OF h] show ?thesis by blast
qed

text \<open>
  C1: the round trip fails on the non-empty text \<^verbatim>\<open>"A"\<close>: \<^verbatim>\<open>comprimir\<close> returns the
  blob \<open>[0]\<close> and the table that maps \<^verbatim>\<open>A\<close> to the empty code, and \<^verbatim>\<open>descomprimir\<close>
  on them returns the empty text, not \<^verbatim>\<open>"A"\<close>.
\<close>

theorem ida_y_vuelta_un_simbolo:
  "comprimir ''A'' = Inr ([0], [(CHR ''A'', [])])
   \<and> descomprimir [0] [(CHR ''A'', [])] = ([] :: string)
   \<and> descomprimir [0] [(CHR ''A'', [])] \<noteq> ''A''"
proof -
  have "comprimir ''A'' = Inr ([0], [(CHR ''A'', [])])" by code_simp
  moreover have "descomprimir [0] [(CHR ''A'', [])] = ([] :: string)" by code_simp
  ultimately show ?thesis by simp
qed

text \<open>
  The defect is confined to texts with one symbol: with two or more distinct symbols every
  code is non-empty and the table is prefix-free, so the decoder recovers the text.
\<close>

lemma ida_y_vuelta_dos_simbolos:
  assumes "2 \<le> card (set texto)"
  shows "\<exists>blob codigos. comprimir texto = Inr (blob, codigos) \<and> descomprimir blob codigos = texto"
proof -
  from assms have ne: "texto \<noteq> []" by auto
  from comprimir_estructura [OF ne] obtain padding payload codigos bits where
    c: "comprimir texto = Inr (padding # payload, codigos)"
    and dk: "distinct (map fst codigos)" and ks: "set (map fst codigos) = set texto"
    and lp: "libre_de_prefijos codigos"
    and bits: "bits = concat (map (\<lambda>c. the (dict_get codigos c)) texto)"
    and pl: "\<forall>b \<in> set payload. b < 256"
    and cc: "concat (map byte_a_bits payload) = bits @ replicate padding (CHR ''0'')"
    by blast
  have cne: "codigos \<noteq> []" using ks ne by auto
  have novacio: "(s, []) \<notin> set codigos" for s
  proof
    assume s: "(s, []) \<in> set codigos"
    from assms obtain s' where "s' \<in> set texto" "s' \<noteq> s"
      by (metis card_le_Suc0_iff_eq List.finite_set not_less_eq_eq numeral_2_eq_2)
    with ks obtain w where "(s', w) \<in> set codigos" by force
    with lp s \<open>s' \<noteq> s\<close> show False unfolding libre_de_prefijos_def by fastforce
  qed
  define inverso where "inverso = foldl (\<lambda>d (k, v). dict_set d v k) [] codigos"
  have inv: "dict_get inverso x = Some s \<longleftrightarrow> (s, x) \<in> set codigos" for x s
    unfolding inverso_def
    by (rule codigos_inversos_get [OF libre_de_prefijos_distinct_codigos [OF lp dk]])
  have dec: "decodificar inverso bits [] [] = texto"
    using decodificar_texto [OF inv lp dk novacio, of texto "[]"] ks by (simp add: bits)
  have quitar: "(if padding > 0 then take (length (bits @ replicate padding (CHR ''0'')) - padding)
                  (bits @ replicate padding (CHR ''0''))
                else bits @ replicate padding (CHR ''0'')) = bits"
    by simp
  have "descomprimir (padding # payload) codigos = texto"
    using cne dec quitar
    by (simp add: descomprimir_def Let_def concat_format_08b [OF pl] cc flip: inverso_def)
  with c show ?thesis by blast
qed

text \<open>
  C3: for the text \<^verbatim>\<open>"AAA"\<close> the root of the tree is a leaf, as the claim says, but
  \<^verbatim>\<open>generar_codigos\<close> gives its symbol the empty code and not \<^verbatim>\<open>"0"\<close>, so that
  \<^verbatim>\<open>comprimir\<close> emits no payload byte for the three symbols.
\<close>

theorem codigo_un_simbolo:
  "construir_arbol ''AAA'' = Inr (Some (NodoHuffman (Some (CHR ''A'')) 3 None None))
   \<and> generar_codigos (Some (NodoHuffman (Some (CHR ''A'')) 3 None None)) = Inr [(CHR ''A'', [])]
   \<and> dict_get [(CHR ''A'', [])] (CHR ''A'') \<noteq> Some ''0''
   \<and> comprimir ''AAA'' = Inr ([0], [(CHR ''A'', [])])"
proof -
  have "construir_arbol ''AAA'' = Inr (Some (NodoHuffman (Some (CHR ''A'')) 3 None None))"
    by code_simp
  moreover have "generar_codigos (Some (NodoHuffman (Some (CHR ''A'')) 3 None None))
      = Inr [(CHR ''A'', [])]"
    by code_simp
  moreover have "comprimir ''AAA'' = Inr ([0], [(CHR ''A'', [])])" by code_simp
  ultimately show ?thesis by (simp add: dict_get_def)
qed

text \<open>
  C8, as stated, fails: for \<^verbatim>\<open>"AAAB"\<close> the table generated from the tree gives \<^verbatim>\<open>A\<close>
  the code \<^verbatim>\<open>"1"\<close> and \<^verbatim>\<open>B\<close> the code \<^verbatim>\<open>"0"\<close>, not \<^verbatim>\<open>A = "0"\<close> and \<^verbatim>\<open>B = "1"\<close>.
\<close>

theorem aaab_codigos_counterexample:
  "construir_arbol ''AAAB'' =
     Inr (Some (NodoHuffman None 4 (Some (NodoHuffman (Some (CHR ''B'')) 1 None None))
                                    (Some (NodoHuffman (Some (CHR ''A'')) 3 None None))))
   \<and> generar_codigos
       (Some (NodoHuffman None 4 (Some (NodoHuffman (Some (CHR ''B'')) 1 None None))
                                  (Some (NodoHuffman (Some (CHR ''A'')) 3 None None))))
     = Inr [(CHR ''B'', ''0''), (CHR ''A'', ''1'')]
   \<and> dict_get [(CHR ''B'', ''0''), (CHR ''A'', ''1'')] (CHR ''A'') \<noteq> Some ''0''
   \<and> dict_get [(CHR ''B'', ''0''), (CHR ''A'', ''1'')] (CHR ''B'') \<noteq> Some ''1''"
proof -
  have "construir_arbol ''AAAB'' =
    Inr (Some (NodoHuffman None 4 (Some (NodoHuffman (Some (CHR ''B'')) 1 None None))
                                   (Some (NodoHuffman (Some (CHR ''A'')) 3 None None))))"
    by code_simp
  moreover have "generar_codigos
       (Some (NodoHuffman None 4 (Some (NodoHuffman (Some (CHR ''B'')) 1 None None))
                                   (Some (NodoHuffman (Some (CHR ''A'')) 3 None None))))
     = Inr [(CHR ''B'', ''0''), (CHR ''A'', ''1'')]"
    by code_simp
  ultimately show ?thesis by (simp add: dict_get_def)
qed

text \<open>
  C8, amended: for \<^verbatim>\<open>"AAAB"\<close> the frequencies are \<^verbatim>\<open>A: 3\<close> and \<^verbatim>\<open>B: 1\<close>; the tree
  has a single internal node, of frequency 4, with the leaf \<^verbatim>\<open>B\<close> on the left and the
  leaf \<^verbatim>\<open>A\<close> on the right; the codes are \<^verbatim>\<open>B = "0"\<close> and \<^verbatim>\<open>A = "1"\<close>; the blob is the
  header byte 4 (four padding bits) followed by the byte 224 (\<^verbatim>\<open>11100000\<close>), and
  decompressing it with the table returns \<^verbatim>\<open>"AAAB"\<close>.
\<close>

theorem aaab_escenario:
  "Counter ''AAAB'' = [(CHR ''A'', 3), (CHR ''B'', 1)]
   \<and> construir_arbol ''AAAB'' =
       Inr (Some (NodoHuffman None 4 (Some (NodoHuffman (Some (CHR ''B'')) 1 None None))
                                      (Some (NodoHuffman (Some (CHR ''A'')) 3 None None))))
   \<and> generar_codigos
       (Some (NodoHuffman None 4 (Some (NodoHuffman (Some (CHR ''B'')) 1 None None))
                                  (Some (NodoHuffman (Some (CHR ''A'')) 3 None None))))
     = Inr [(CHR ''B'', ''0''), (CHR ''A'', ''1'')]
   \<and> comprimir ''AAAB'' = Inr ([4, 224], [(CHR ''B'', ''0''), (CHR ''A'', ''1'')])
   \<and> byte_a_bits 224 = ''11100000''
   \<and> descomprimir [4, 224] [(CHR ''B'', ''0''), (CHR ''A'', ''1'')] = ''AAAB''"
proof -
  have "Counter ''AAAB'' = [(CHR ''A'', 3), (CHR ''B'', 1)]" by code_simp
  moreover have "construir_arbol ''AAAB'' =
       Inr (Some (NodoHuffman None 4 (Some (NodoHuffman (Some (CHR ''B'')) 1 None None))
                                      (Some (NodoHuffman (Some (CHR ''A'')) 3 None None))))"
    by code_simp
  moreover have "generar_codigos
       (Some (NodoHuffman None 4 (Some (NodoHuffman (Some (CHR ''B'')) 1 None None))
                                  (Some (NodoHuffman (Some (CHR ''A'')) 3 None None))))
     = Inr [(CHR ''B'', ''0''), (CHR ''A'', ''1'')]"
    by code_simp
  moreover have "comprimir ''AAAB'' = Inr ([4, 224], [(CHR ''B'', ''0''), (CHR ''A'', ''1'')])"
    by code_simp
  moreover have "byte_a_bits 224 = ''11100000''" by code_simp
  moreover have "descomprimir [4, 224] [(CHR ''B'', ''0''), (CHR ''A'', ''1'')] = ''AAAB''"
    by code_simp
  ultimately show ?thesis by blast
qed

section \<open>Properties of RSA\<close>

subsection \<open>The greatest common divisor, the search for the exponent and the inverse\<close>

lemma calcular_mcd_gcd: "0 \<le> a \<Longrightarrow> 0 \<le> b \<Longrightarrow> calcular_mcd a b = gcd a b"
proof (induction a b rule: calcular_mcd.induct)
  case (1 a b)
  show ?case
  proof (cases "b = 0")
    case True
    with "1.prems" show ?thesis by (subst calcular_mcd.simps) simp
  next
    case False
    with "1.prems" have "0 \<le> a mod b" by simp
    from "1.IH" [OF False "1.prems"(2) this] False show ?thesis
      by (subst calcular_mcd.simps) (simp add: gcd_red_int [of a b])
  qed
qed

lemma buscar_e_termina_aux:
  "0 \<le> e0 \<Longrightarrow> 0 \<le> phi \<Longrightarrow> gcd (e0 + 2 * int k) phi = 1 \<Longrightarrow>
   \<exists>e. buscar_e e0 phi = Some e \<and> e0 \<le> e \<and> gcd e phi = 1"
proof (induction k arbitrary: e0)
  case 0
  then have "son_coprimos e0 phi" by (simp add: son_coprimos_def calcular_mcd_gcd)
  then show ?case using 0 by (subst buscar_e.simps) simp
next
  case (Suc k)
  show ?case
  proof (cases "son_coprimos e0 phi")
    case True
    then have "gcd e0 phi = 1" using Suc.prems by (simp add: son_coprimos_def calcular_mcd_gcd)
    with True show ?thesis by (subst buscar_e.simps) simp
  next
    case False
    have "gcd (e0 + 2 + 2 * int k) phi = 1" using Suc.prems(3) by (simp add: algebra_simps)
    from Suc.IH [OF _ Suc.prems(2) this] Suc.prems(1)
    obtain e where "buscar_e (e0 + 2) phi = Some e" "e0 + 2 \<le> e" "gcd e phi = 1" by auto
    with False show ?thesis by (subst buscar_e.simps) auto
  qed
qed

lemma buscar_e_termina:
  assumes "1 \<le> phi"
  shows "\<exists>e. buscar_e 17 phi = Some e \<and> 17 \<le> e \<and> gcd e phi = 1"
proof -
  have "17 + 2 * int (nat (8 * (phi - 1))) = 16 * phi + 1" using assms by simp
  moreover have "gcd (16 * phi + 1) phi = 1"
    by (metis gcd.commute gcd_add_mult gcd_1_int)
  ultimately have "gcd (17 + 2 * int (nat (8 * (phi - 1)))) phi = 1" by (simp only:)
  from buscar_e_termina_aux [OF _ _ this] assms show ?thesis by simp
qed

lemma extended_gcd_bezout:
  "0 \<le> a \<Longrightarrow> 0 \<le> b \<Longrightarrow> extended_gcd a b = (g, x, y) \<Longrightarrow> g = gcd a b \<and> a * x + b * y = g"
proof (induction a b arbitrary: g x y rule: extended_gcd.induct)
  case (1 a b)
  show ?case
  proof (cases "a = 0")
    case True
    with "1.prems" show ?thesis by (subst (asm) extended_gcd.simps) simp
  next
    case False
    obtain g1 x1 y1 where r: "extended_gcd (b mod a) a = (g1, x1, y1)"
      by (cases "extended_gcd (b mod a) a") auto
    from False "1.prems"(1) have "0 \<le> b mod a" by simp
    from "1.IH" [OF False this "1.prems"(1) r]
    have ih: "g1 = gcd (b mod a) a" "(b mod a) * x1 + a * y1 = g1" by simp_all
    have "extended_gcd a b = (g1, y1 - (b div a) * x1, x1)"
      using False r by (subst extended_gcd.simps) simp
    with "1.prems"(3) have e: "g = g1" "x = y1 - (b div a) * x1" "y = x1" by auto
    have "g = gcd a b" using ih(1) e(1) by (metis gcd.commute gcd_red_int)
    moreover have "a * x + b * y = g"
    proof -
      have bm: "b mod a = b - a * (b div a)" by (simp add: minus_mult_div_eq_mod)
      have "a * x + b * y = (b - a * (b div a)) * x1 + a * y1"
        unfolding e by (simp add: algebra_simps)
      then show ?thesis using ih(2) e(1) by (simp only: bm)
    qed
    ultimately show ?thesis by simp
  qed
qed

lemma modular_inverse_correcto:
  assumes "0 \<le> e" "2 \<le> phi" "gcd e phi = 1"
  shows "\<exists>d. modular_inverse e phi = Inr d \<and> 0 < d \<and> d < phi \<and> (e * d) mod phi = 1"
proof -
  obtain g x y where r: "extended_gcd e phi = (g, x, y)"
    by (cases "extended_gcd e phi") auto
  from extended_gcd_bezout [OF assms(1) _ r] assms
  have b: "g = 1" "e * x + phi * y = 1" by simp_all
  have m: "modular_inverse e phi = Inr (x mod phi)"
    using r b(1) assms(2) by (simp add: modular_inverse_def)
  have "(e * (x mod phi)) mod phi = (e * x) mod phi" by (simp add: mod_mult_right_eq)
  also have "\<dots> = (e * x + phi * y) mod phi" by simp
  also have "\<dots> = 1" using b(2) assms(2) by simp
  finally have one: "(e * (x mod phi)) mod phi = 1" .
  have "x mod phi \<noteq> 0" using one by auto
  moreover have "0 \<le> x mod phi" "x mod phi < phi" using assms(2) by simp_all
  ultimately show ?thesis using m one by auto
qed

subsection \<open>Primes and the congruence behind the signature\<close>

lemma es_primo_coprime:
  assumes "es_primo p" "\<not> p dvd a"
  shows "coprime p a"
proof -
  define g where "g = gcd p a"
  have p: "1 < p" "\<And>m. 2 \<le> m \<Longrightarrow> m < p \<Longrightarrow> \<not> m dvd p"
    using assms(1) by (auto simp: es_primo_def)
  have g: "0 \<le> g" "g dvd p" "g dvd a" by (simp_all add: g_def)
  have "g \<noteq> 0" using p(1) by (auto simp: g_def)
  moreover have "g \<le> p" using g(2) p(1) by (simp add: zdvd_imp_le)
  moreover have "g \<noteq> p" using g(3) assms(2) by auto
  ultimately have "g = 1" using p(2) [of g] g(1,2) by force
  then show ?thesis unfolding g_def by (simp add: coprime_iff_gcd_eq_1)
qed

lemma es_primo_dvd_mult:
  assumes "es_primo p" "p dvd a * b"
  shows "p dvd a \<or> p dvd b"
proof (cases "p dvd a")
  case True then show ?thesis by simp
next
  case False
  from es_primo_coprime [OF assms(1) False] assms(2) show ?thesis
    by (simp add: coprime_dvd_mult_right_iff)
qed

lemma es_primo_dvd_choose:
  assumes "es_primo p" "0 < k" "k < nat p"
  shows "p dvd int (nat p choose k)"
proof -
  have p: "1 < p" using assms(1) by (simp add: es_primo_def)
  have "\<not> p dvd int k"
    using assms(2,3) p by (auto dest!: zdvd_imp_le)
  have "int k * int (nat p choose k) = p * int ((nat p - 1) choose (k - 1))"
    using times_binomial_minus1_eq [OF assms(2), of "nat p"] p
    by (metis int_nat_eq less_imp_le of_nat_mult order.strict_trans zero_less_one)
  then have "p dvd int k * int (nat p choose k)" by simp
  with es_primo_dvd_mult [OF assms(1)] \<open>\<not> p dvd int k\<close> show ?thesis by blast
qed

lemma fermat_suma:
  assumes "es_primo p"
  shows "p dvd (a + 1) ^ nat p - a ^ nat p - (1::int)"
proof -
  have p: "1 < p" using assms by (simp add: es_primo_def)
  define P where "P = nat p"
  have P: "1 < P" using p by (simp add: P_def)
  have "(a + 1) ^ P = (\<Sum>k\<le>P. int (P choose k) * a ^ k)"
    using binomial_ring [of a 1 P] by simp
  also have "{..P} = insert 0 (insert P {1..<P})" using P by auto
  also have "(\<Sum>k\<in>insert 0 (insert P {1..<P}). int (P choose k) * a ^ k)
      = 1 + (a ^ P + (\<Sum>k\<in>{1..<P}. int (P choose k) * a ^ k))"
    using P by simp
  finally have "(a + 1) ^ P - a ^ P - 1 = (\<Sum>k\<in>{1..<P}. int (P choose k) * a ^ k)" by simp
  moreover have "p dvd (\<Sum>k\<in>{1..<P}. int (P choose k) * a ^ k)"
    by (rule dvd_sum) (auto simp: P_def intro!: dvd_mult2 es_primo_dvd_choose [OF assms])
  ultimately show ?thesis by (simp add: P_def)
qed

lemma fermat_nat:
  assumes "es_primo p"
  shows "p dvd (int n) ^ nat p - int n"
proof (induction n)
  case 0
  have "0 < p" using assms by (simp add: es_primo_def)
  then show ?case by (simp add: power_0_left)
next
  case (Suc n)
  have "(int (Suc n)) ^ nat p - int (Suc n)
      = ((int n + 1) ^ nat p - (int n) ^ nat p - 1) + ((int n) ^ nat p - int n)"
    by (simp add: algebra_simps)
  with fermat_suma [OF assms, of "int n"] Suc.IH show ?case
    by (simp only: dvd_add)
qed

lemma fermat_int:
  assumes "es_primo p"
  shows "p dvd a ^ nat p - a"
proof -
  have p: "0 < p" using assms by (simp add: es_primo_def)
  then have "0 \<le> a mod p" by simp
  then obtain n where n: "a mod p = int n" using nonneg_int_cases by blast
  have "(a ^ nat p - a) mod p = ((a mod p) ^ nat p mod p - a mod p) mod p"
    by (simp only: power_mod mod_diff_eq)
  also have "\<dots> = ((a mod p) ^ nat p - a mod p) mod p"
    by (simp only: mod_diff_left_eq)
  also have "\<dots> = 0" using fermat_nat [OF assms, of n] by (simp add: n)
  finally show ?thesis by (simp add: dvd_eq_mod_eq_0)
qed

lemma fermat_pequeno:
  assumes "es_primo p" "\<not> p dvd a"
  shows "a ^ (nat p - 1) mod p = 1"
proof -
  have p: "1 < p" using assms(1) by (simp add: es_primo_def)
  then have "nat p = Suc (nat p - 1)" by simp
  then have "a ^ nat p - a = a * (a ^ (nat p - 1) - 1)"
    by (metis power_Suc right_diff_distrib mult.right_neutral)
  with fermat_int [OF assms(1), of a] es_primo_dvd_mult [OF assms(1)] assms(2)
  have "p dvd a ^ (nat p - 1) - 1" by auto
  then have "(a ^ (nat p - 1) - 1) mod p = 0" by (simp add: dvd_eq_mod_eq_0)
  then have "a ^ (nat p - 1) mod p = 1 mod p"
    by (metis diff_add_cancel mod_add_left_eq add_0)
  with p show ?thesis by simp
qed

lemma potencia_mod_primo:
  assumes "es_primo p"
  shows "a ^ (1 + k * (nat p - 1)) mod p = a mod p"
proof (cases "p dvd a")
  case True
  then have "p dvd a ^ (1 + k * (nat p - 1))" by simp
  with True show ?thesis by (simp add: dvd_eq_mod_eq_0)
next
  case False
  have "a ^ (1 + k * (nat p - 1)) = a * a ^ ((nat p - 1) * k)"
    by (simp add: mult.commute)
  also have "\<dots> = a * (a ^ (nat p - 1)) ^ k"
    by (simp only: power_mult)
  finally have eq: "a ^ (1 + k * (nat p - 1)) = a * (a ^ (nat p - 1)) ^ k" .
  have "(a * (a ^ (nat p - 1)) ^ k) mod p = (a * ((a ^ (nat p - 1) mod p) ^ k mod p)) mod p"
    by (simp only: power_mod mod_mult_right_eq)
  also have "\<dots> = a mod p"
    using fermat_pequeno [OF assms False] by (simp add: mod_simps)
  finally show ?thesis by (simp only: eq)
qed

lemma primos_distintos_coprimos:
  assumes "es_primo p" "es_primo q" "p \<noteq> q"
  shows "coprime p q"
proof -
  have pq: "1 < p" "1 < q" using assms by (simp_all add: es_primo_def)
  have "\<not> p dvd q"
  proof
    assume d: "p dvd q"
    then have "p \<le> q" using pq by (simp add: zdvd_imp_le)
    with assms(3) have "p < q" by simp
    with assms(2) pq d show False by (auto simp: es_primo_def)
  qed
  from es_primo_coprime [OF assms(1) this] show ?thesis .
qed

lemma rsa_congruencia:
  assumes "es_primo p" "es_primo q" "p \<noteq> q"
  shows "a ^ (1 + k * (nat p - 1) * (nat q - 1)) mod (p * q) = a mod (p * q)"
proof -
  let ?m = "1 + k * (nat p - 1) * (nat q - 1)"
  have "a ^ ?m mod p = a mod p"
    using potencia_mod_primo [OF assms(1), of a "k * (nat q - 1)"] by (simp add: ac_simps)
  then have dp: "p dvd a ^ ?m - a" by (simp add: mod_eq_dvd_iff)
  have "a ^ ?m mod q = a mod q"
    using potencia_mod_primo [OF assms(2), of a "k * (nat p - 1)"] by (simp add: ac_simps)
  then have dq: "q dvd a ^ ?m - a" by (simp add: mod_eq_dvd_iff)
  from divides_mult [OF dp dq primos_distintos_coprimos [OF assms]]
  show ?thesis by (simp add: mod_eq_dvd_iff)
qed

subsection \<open>Key generation, signing and verifying\<close>

lemma pow_cuadrados_potencia: "pow_cuadrados base ex md = base ^ ex mod md"
proof (induction base ex md rule: pow_cuadrados.induct)
  case (1 base ex md)
  show ?case
  proof (cases "ex = 0")
    case True
    then show ?thesis by (subst pow_cuadrados.simps) simp
  next
    case False
    have ih: "pow_cuadrados ((base * base) mod md) (ex div 2) md = ((base * base) mod md) ^ (ex div 2) mod md"
      by (rule "1.IH" [OF False])
    have sq: "((base * base) mod md) ^ (ex div 2) mod md = base ^ (2 * (ex div 2)) mod md"
      by (simp add: power_mod power_mult power2_eq_square)
    show ?thesis
    proof (cases "ex mod 2 = 1")
      case True
      then have "ex = Suc (2 * (ex div 2))" by presburger
      then have "base ^ ex = base * base ^ (2 * (ex div 2))" by (metis power_Suc)
      then have "base ^ ex mod md = (base * (base ^ (2 * (ex div 2)) mod md)) mod md"
        by (simp add: mod_mult_right_eq)
      with True False ih sq show ?thesis
        by (subst pow_cuadrados.simps) (simp add: Let_def)
    next
      case odd: False
      then have "ex = 2 * (ex div 2)" by presburger
      then have "base ^ ex mod md = base ^ (2 * (ex div 2)) mod md" by simp
      with odd False ih sq show ?thesis
        by (subst pow_cuadrados.simps) (simp add: Let_def)
    qed
  qed
qed

lemma py_pow_no_negativo:
  "md \<noteq> 0 \<Longrightarrow> 0 \<le> ex \<Longrightarrow> py_pow base ex md = Inr (base ^ nat ex mod md)"
  by (simp add: py_pow_def pow_cuadrados_potencia)

lemma generar_claves_primos:
  assumes "es_primo p" "es_primo q" "p \<noteq> q"
  shows "\<exists>e d. generar_claves self p q =
           Some (Inr ((e, p * q), (d, p * q)),
                 self\<lparr>modulo_n := Some (p * q), clave_publica := Some (e, p * q),
                        clave_privada := Some (d, p * q)\<rparr>)
         \<and> 17 \<le> e \<and> 0 < d \<and> 1 < p * q
         \<and> (\<exists>k. nat d * nat e = 1 + k * (nat p - 1) * (nat q - 1))"
proof -
  have pq: "2 \<le> p" "2 \<le> q" using assms(1,2) by (simp_all add: es_primo_def)
  define phi where "phi = (p - 1) * (q - 1)"
  have "3 \<le> p \<or> 3 \<le> q" using pq assms(3) by linarith
  then have phi2: "2 \<le> phi"
  proof
    assume "3 \<le> p"
    then have "2 * 1 \<le> (p - 1) * (q - 1)" using pq by (intro mult_mono) simp_all
    then show ?thesis by (simp add: phi_def)
  next
    assume "3 \<le> q"
    then have "1 * 2 \<le> (p - 1) * (q - 1)" using pq by (intro mult_mono) simp_all
    then show ?thesis by (simp add: phi_def)
  qed
  from buscar_e_termina [of phi] phi2 obtain e where
    e: "buscar_e 17 phi = Some e" "17 \<le> e" "gcd e phi = 1" by auto
  from modular_inverse_correcto [OF _ phi2 e(3)] e(2) obtain d where
    d: "modular_inverse e phi = Inr d" "0 < d" "d < phi" "(e * d) mod phi = 1" by auto
  have n: "1 < p * q" using pq by (smt (verit) mult_le_less_imp_less mult.commute mult_pos_pos one_less_numeral_iff semiring_norm(76))
  define k where "k = nat ((e * d) div phi)"
  have "0 \<le> (e * d) div phi" using e(2) d(2) phi2 by (simp add: pos_imp_zdiv_nonneg_iff)
  then have "int k = (e * d) div phi" by (simp add: k_def)
  moreover have "e * d = phi * ((e * d) div phi) + (e * d) mod phi"
    by (simp only: mult_div_mod_eq)
  ultimately have "e * d = phi * int k + 1" by (simp only: d(4))
  then have "e * d = 1 + int k * phi" by (simp only: mult.commute add.commute)
  moreover have "phi = int ((nat p - 1) * (nat q - 1))" using pq by (simp add: phi_def)
  ultimately have "int (nat d * nat e) = int (1 + k * (nat p - 1) * (nat q - 1))"
    using e(2) d(2) by (simp add: mult.commute mult.assoc)
  then have "nat d * nat e = 1 + k * (nat p - 1) * (nat q - 1)"
    by (simp only: of_nat_eq_iff)
  moreover have "generar_claves self p q =
           Some (Inr ((e, p * q), (d, p * q)),
                 self\<lparr>modulo_n := Some (p * q), clave_publica := Some (e, p * q),
                        clave_privada := Some (d, p * q)\<rparr>)"
    using e(1) d(1) by (simp add: generar_claves_def funcion_totiente_euler_def phi_def)
  ultimately show ?thesis using e(2) d(2) n by blast
qed

lemma firmar_verificar_general:
  assumes "es_primo p" "es_primo q" "p \<noteq> q"
  shows "\<exists>e d self'. generar_claves self p q = Some (Inr ((e, p * q), (d, p * q)), self')
           \<and> clave_publica self' = Some (e, p * q) \<and> clave_privada self' = Some (d, p * q)
           \<and> 0 \<le> e \<and> 0 \<le> d \<and> p * q \<noteq> 0
           \<and> (\<forall>h h'. \<exists>firma. firmar_hash self' (HashInt h') = Inr firma
                  \<and> verificar_firma self' (HashInt h) firma = Inr (h = h' mod (p * q)))"
proof -
  from generar_claves_primos [OF assms, of self] obtain e d k where
    g: "generar_claves self p q =
           Some (Inr ((e, p * q), (d, p * q)),
                 self\<lparr>modulo_n := Some (p * q), clave_publica := Some (e, p * q),
                        clave_privada := Some (d, p * q)\<rparr>)"
    and ed: "17 \<le> e" "0 < d" "1 < p * q" "nat d * nat e = 1 + k * (nat p - 1) * (nat q - 1)"
    by blast
  define self' where "self' = self\<lparr>modulo_n := Some (p * q), clave_publica := Some (e, p * q),
                        clave_privada := Some (d, p * q)\<rparr>"
  have "\<exists>firma. firmar_hash self' (HashInt h') = Inr firma
          \<and> verificar_firma self' (HashInt h) firma = Inr (h = h' mod (p * q))" for h h'
  proof -
    have nz: "p * q \<noteq> 0" "0 \<le> d" "0 \<le> e" using ed(1,2,3) by linarith+
    have f: "firmar_hash self' (HashInt h') = Inr (h' ^ nat d mod (p * q))"
      by (simp add: firmar_hash_def self'_def hash_a_numero_def py_pow_no_negativo [OF nz(1,2)])
    have "(h' ^ nat d mod (p * q)) ^ nat e mod (p * q) = h' ^ (nat d * nat e) mod (p * q)"
      by (simp add: power_mod power_mult)
    also have "\<dots> = h' mod (p * q)"
      using rsa_congruencia [OF assms, of h' k] by (simp only: ed(4))
    finally have "verificar_firma self' (HashInt h) (h' ^ nat d mod (p * q)) = Inr (h = h' mod (p * q))"
      by (simp add: verificar_firma_def self'_def hash_a_numero_def py_pow_no_negativo [OF nz(1,3)])
    with f show ?thesis by blast
  qed
  moreover have "clave_publica self' = Some (e, p * q)" "clave_privada self' = Some (d, p * q)"
    by (simp_all add: self'_def)
  ultimately show ?thesis using g ed unfolding self'_def [symmetric] by auto
qed

lemma primo_61: "es_primo 61" by code_simp
lemma primo_53: "es_primo 53" by code_simp

lemma claves_61_53:
  "generar_claves RSA_init 61 53 =
     Some (Inr ((17, 3233), (2753, 3233)),
           \<lparr>clave_publica = Some (17, 3233), clave_privada = Some (2753, 3233),
              modulo_n = Some 3233\<rparr>)"
  by code_simp

text \<open>
  C2: for distinct primes \<open>p\<close> and \<open>q\<close> (the defaults 61 and 53 among them),
  \<^verbatim>\<open>generar_claves\<close> returns a key pair with modulus \<open>p * q\<close>, and for every hash
  value \<open>h\<close> with \<open>0 \<le> h < p * q\<close> the signature made by \<^verbatim>\<open>firmar_hash\<close> is accepted
  by \<^verbatim>\<open>verificar_firma\<close> for the same hash.
\<close>

theorem firmar_y_verificar:
  assumes "es_primo p" "es_primo q" "p \<noteq> q" "0 \<le> h" "h < p * q"
  shows "\<exists>e d self' firma.
           generar_claves self p q = Some (Inr ((e, p * q), (d, p * q)), self')
           \<and> firmar_hash self' (HashInt h) = Inr firma
           \<and> verificar_firma self' (HashInt h) firma = Inr True"
proof -
  from firmar_verificar_general [OF assms(1-3), of self] obtain e d self' where
    g: "generar_claves self p q = Some (Inr ((e, p * q), (d, p * q)), self')"
    and fv: "\<And>h h'. \<exists>firma. firmar_hash self' (HashInt h') = Inr firma
                  \<and> verificar_firma self' (HashInt h) firma = Inr (h = h' mod (p * q))"
    by blast
  from fv [of h h] obtain firma where
    "firmar_hash self' (HashInt h) = Inr firma"
    "verificar_firma self' (HashInt h) firma = Inr (h = h mod (p * q))" by blast
  moreover have "h mod (p * q) = h" using assms(4,5) by simp
  ultimately show ?thesis using g by auto
qed

theorem firmar_y_verificar_witness:
  "es_primo 61 \<and> es_primo 53 \<and> (61::int) \<noteq> 53 \<and> (0::int) \<le> 65 \<and> (65::int) < 61 * 53
   \<and> (\<exists>e d self' firma.
           generar_claves RSA_init 61 53 = Some (Inr ((e, 61 * 53), (d, 61 * 53)), self')
           \<and> firmar_hash self' (HashInt 65) = Inr firma
           \<and> verificar_firma self' (HashInt 65) firma = Inr True)
   \<and> firmar_hash \<lparr>clave_publica = Some (17, 3233), clave_privada = Some (2753, 3233),
                    modulo_n = Some 3233\<rparr> (HashInt 65) = Inr 588
   \<and> verificar_firma \<lparr>clave_publica = Some (17, 3233), clave_privada = Some (2753, 3233),
                    modulo_n = Some 3233\<rparr> (HashInt 65) 588 = Inr True"
proof -
  have h: "(61::int) \<noteq> 53" "(0::int) \<le> 65" "(65::int) < 61 * 53" by simp_all
  have a: "firmar_hash \<lparr>clave_publica = Some (17, 3233), clave_privada = Some (2753, 3233),
                    modulo_n = Some 3233\<rparr> (HashInt 65) = Inr 588"
    by (simp add: firmar_hash_def hash_a_numero_def py_pow_def pow_cuadrados.simps)
  have b: "verificar_firma \<lparr>clave_publica = Some (17, 3233), clave_privada = Some (2753, 3233),
                    modulo_n = Some 3233\<rparr> (HashInt 65) 588 = Inr True"
    by (simp add: verificar_firma_def hash_a_numero_def py_pow_def pow_cuadrados.simps)
  from firmar_y_verificar [OF primo_61 primo_53 h, of RSA_init] primo_61 primo_53 h a b
  show ?thesis by blast
qed

text \<open>
  C4, as stated, fails: with the default keys the signature of the hash 3238 is 385, and
  \<^verbatim>\<open>verificar_firma\<close> accepts it for the different hash 5, because the two hashes are
  congruent modulo \<open>n = 3233\<close>.
\<close>

theorem firma_de_otro_hash_counterexample:
  "generar_claves RSA_init 61 53 =
     Some (Inr ((17, 3233), (2753, 3233)),
           \<lparr>clave_publica = Some (17, 3233), clave_privada = Some (2753, 3233),
              modulo_n = Some 3233\<rparr>)
   \<and> firmar_hash \<lparr>clave_publica = Some (17, 3233), clave_privada = Some (2753, 3233),
                    modulo_n = Some 3233\<rparr> (HashInt 3238) = Inr 385
   \<and> verificar_firma \<lparr>clave_publica = Some (17, 3233), clave_privada = Some (2753, 3233),
                    modulo_n = Some 3233\<rparr> (HashInt 5) 385 = Inr True
   \<and> (0::int) \<le> 5 \<and> (0::int) \<le> 3238 \<and> (5::int) \<noteq> 3238"
proof -
  have "firmar_hash \<lparr>clave_publica = Some (17, 3233), clave_privada = Some (2753, 3233),
                    modulo_n = Some 3233\<rparr> (HashInt 3238) = Inr 385"
    by (simp add: firmar_hash_def hash_a_numero_def py_pow_def pow_cuadrados.simps)
  moreover have "verificar_firma \<lparr>clave_publica = Some (17, 3233), clave_privada = Some (2753, 3233),
                    modulo_n = Some 3233\<rparr> (HashInt 5) 385 = Inr True"
    by (simp add: verificar_firma_def hash_a_numero_def py_pow_def pow_cuadrados.simps)
  ultimately show ?thesis using claves_61_53 by simp
qed

text \<open>
  C4, amended: for the key pair generated from distinct primes, with \<open>n = p * q\<close>, and
  for all hash integers \<open>h\<close> and \<open>h'\<close> with \<open>h \<noteq> h' mod n\<close> (in particular whenever
  \<open>h \<noteq> h'\<close> and \<open>0 \<le> h' < n\<close>), \<^verbatim>\<open>verificar_firma\<close> rejects for \<open>h\<close> the signature
  that \<^verbatim>\<open>firmar_hash\<close> made for \<open>h'\<close>.
\<close>

theorem firma_de_otro_hash:
  assumes "es_primo p" "es_primo q" "p \<noteq> q" "h \<noteq> h' mod (p * q)"
  shows "\<exists>e d self' firma.
           generar_claves self p q = Some (Inr ((e, p * q), (d, p * q)), self')
           \<and> firmar_hash self' (HashInt h') = Inr firma
           \<and> verificar_firma self' (HashInt h) firma = Inr False"
proof -
  from firmar_verificar_general [OF assms(1-3), of self] obtain e d self' where
    g: "generar_claves self p q = Some (Inr ((e, p * q), (d, p * q)), self')"
    and fv: "\<And>h h'. \<exists>firma. firmar_hash self' (HashInt h') = Inr firma
                  \<and> verificar_firma self' (HashInt h) firma = Inr (h = h' mod (p * q))"
    by blast
  from fv have "\<exists>firma. firmar_hash self' (HashInt h') = Inr firma
      \<and> verificar_firma self' (HashInt h) firma = Inr (h = h' mod (p * q))" .
  with assms(4) g show ?thesis by auto
qed

theorem firma_de_otro_hash_witness:
  "es_primo 61 \<and> es_primo 53 \<and> (61::int) \<noteq> 53 \<and> (5::int) \<noteq> 6 mod (61 * 53)
   \<and> (\<exists>e d self' firma.
           generar_claves RSA_init 61 53 = Some (Inr ((e, 61 * 53), (d, 61 * 53)), self')
           \<and> firmar_hash self' (HashInt 6) = Inr firma
           \<and> verificar_firma self' (HashInt 5) firma = Inr False)"
proof -
  have h: "(61::int) \<noteq> 53" "(5::int) \<noteq> 6 mod (61 * 53)" by simp_all
  from firma_de_otro_hash [OF primo_61 primo_53 h, of RSA_init] primo_61 primo_53 h
  show ?thesis by blast
qed

subsection \<open>Missing and degenerate keys\<close>






end
